theory Spec2Isabelle
  imports Complex_Main
begin

section \<open>Constants and data of synth.c\<close>

text \<open>
  The synthesizer keeps \<open>NUM_OSCILLATORS\<close> voices. Each voice reads timed events from
  its own ring buffer and is rendered by the audio callback \<open>paCallback\<close>, one buffer of
  \<open>FRAMES_PER_BUFFER\<close> stereo frames at a time.

  Numbers. The C types \<open>float\<close> and \<open>double\<close> are modelled as \<open>real\<close>: rounding of
  floating-point operations is not modelled. The C \<open>int\<close> is 32 bits wide and
  \<open>unsigned long\<close> 64 bits wide (LP64); they are modelled as \<open>int\<close> and \<open>nat\<close> with
  every conversion and wrap-around written out. Where C leaves the behaviour of an
  operation undefined (a conversion of a floating-point value that does not fit, an
  array read out of bounds) the model returns \<open>None\<close>.
\<close>

definition SAMPLE_RATE :: nat where
  "SAMPLE_RATE = 44100"

definition FRAMES_PER_BUFFER :: nat where
  "FRAMES_PER_BUFFER = 210"

definition TABLE_SIZE :: nat where
  "TABLE_SIZE = 210"

definition NUM_OSCILLATORS :: nat where
  "NUM_OSCILLATORS = 2"

text \<open>
  \<open>enum note_type\<close>. A C enumeration is an integer type: its enumerators are the
  constants 0 to 3, and a variable of the type can hold other integers as well.
\<close>

type_synonym note_type = int

definition NOTE :: note_type where
  "NOTE = 0"

definition REST :: note_type where
  "REST = 1"

definition WAITING :: note_type where
  "WAITING = 2"

definition END :: note_type where
  "END = 3"

record frame =
  left :: real
  right :: real

text \<open>\<open>struct note\<close>.\<close>

record note_t =
  type :: note_type
  ms :: int
  hz :: real

text \<open>
  \<open>struct osc\<close>.

  Modelled from the spec: the ring buffer of PortAudio (\<open>pa_ringbuffer.h\<close>) is not part
  of the source. Following the note queue of the specification it is a bounded FIFO
  channel: \<open>rbuf\<close> lists the queued events, oldest first; a write to a full buffer is
  dropped, a read from an empty one returns nothing.

  The semaphore \<open>finished\<close> is its counter: \<open>sem_post\<close> adds one, \<open>sem_wait\<close>
  returns only when it can take one away.
\<close>

record osc =
  rbuf :: "note_t list"
  table :: "real list"
  vol :: real
  left_phase :: real
  right_phase :: real
  frames_played :: int
  num_frames :: nat
  curr_note :: note_t
  finished :: nat

definition RBUF_CAPACITY :: nat where
  "RBUF_CAPACITY = 1024"

section \<open>Conversions of C\<close>

text \<open>Conversion of a floating-point value to an integer type discards the fraction.\<close>

definition c_trunc :: "real \<Rightarrow> int" where
  "c_trunc x = (if 0 \<le> x then \<lfloor>x\<rfloor> else \<lceil>x\<rceil>)"

text \<open>\<open>double\<close> to \<open>unsigned long\<close>: undefined when the truncated value does not fit.\<close>

definition ulong_of_double :: "real \<Rightarrow> nat option" where
  "ulong_of_double x =
     (let k = c_trunc x in if 0 \<le> k \<and> k < 2 ^ 64 then Some (nat k) else None)"

text \<open>\<open>double\<close> to \<open>int\<close>: undefined when the truncated value does not fit.\<close>

definition int_of_double :: "real \<Rightarrow> int option" where
  "int_of_double x =
     (let k = c_trunc x in if - (2 ^ 31) \<le> k \<and> k < 2 ^ 31 then Some k else None)"

text \<open>\<open>int\<close> to \<open>unsigned long\<close>: the value modulo \<open>2 ^ 64\<close>.\<close>

definition ulong_of_int :: "int \<Rightarrow> nat" where
  "ulong_of_int x = nat (x mod 2 ^ 64)"

text \<open>
  An unsigned value to \<open>int\<close>: the low 32 bits, read as two's complement (what gcc and
  clang do where the value does not fit).
\<close>

definition int_of_ulong :: "nat \<Rightarrow> int" where
  "int_of_ulong n = (let m = int n mod 2 ^ 32 in if m < 2 ^ 31 then m else m - 2 ^ 32)"

text \<open>Arithmetic of \<open>unsigned long\<close> wraps around.\<close>

definition ulong_add :: "nat \<Rightarrow> nat \<Rightarrow> nat" where
  "ulong_add a b = (a + b) mod 2 ^ 64"

definition ulong_sub :: "nat \<Rightarrow> nat \<Rightarrow> nat" where
  "ulong_sub a b = nat ((int a - int b) mod 2 ^ 64)"

section \<open>The wavetables\<close>

record tables =
  noise :: "real list"
  sine :: "real list"
  saw :: "real list"

text \<open>The three global arrays before \<open>initTables\<close>: \<open>TABLE_SIZE\<close> zeros each.\<close>

definition zero_tables :: tables where
  "zero_tables = \<lparr>noise = replicate TABLE_SIZE 0, sine = replicate TABLE_SIZE 0,
     saw = replicate TABLE_SIZE 0\<rparr>"

text \<open>\<open>for(i = 0; i < TABLE_SIZE; i++) t[i] = f i;\<close>\<close>

definition fill_table :: "(nat \<Rightarrow> real) \<Rightarrow> real list \<Rightarrow> real list" where
  "fill_table f t = fold (\<lambda>i t. t[i := f i]) [0..<TABLE_SIZE] t"

definition initTables :: "tables \<Rightarrow> tables" where
  "initTables T =
     (let T1 = T\<lparr>sine := fill_table (\<lambda>i. sin ((real i / real TABLE_SIZE) * pi * 2)) (sine T)\<rparr>;
          T2 = T1\<lparr>saw := fill_table (\<lambda>i. 1 - 2 * (real i / real TABLE_SIZE)) (saw T1)\<rparr>;
          T3 = T2\<lparr>noise := fill_table (\<lambda>i. sin ((real i / real TABLE_SIZE) * pi * 2)) (noise T2)\<rparr>
      in T3)"

section \<open>Rendering one frame of one voice\<close>

text \<open>\<open>t[(int) ph]\<close>: the cast, then the read of the array, which must be in bounds.\<close>

definition table_at :: "real list \<Rightarrow> real \<Rightarrow> real option" where
  "table_at t ph =
     (case int_of_double ph of
        None \<Rightarrow> None
      | Some k \<Rightarrow> if 0 \<le> k \<and> k < int (length t) then Some (t ! nat k) else None)"

text \<open>One phase accumulator: the increment, then a single conditional subtraction.\<close>

definition advance_phase :: "real \<Rightarrow> real \<Rightarrow> real" where
  "advance_phase ph f =
     (let p = ph + f / real TABLE_SIZE in if p \<ge> real TABLE_SIZE then p - real TABLE_SIZE else p)"

definition getNextFrame :: "osc \<Rightarrow> (frame \<times> osc) option" where
  "getNextFrame v =
     (if type (curr_note v) = REST \<or> type (curr_note v) = WAITING \<or> type (curr_note v) = END
      then Some (\<lparr>left = 0, right = 0\<rparr>, v)
      else
        (case table_at (table v) (left_phase v) of
           None \<Rightarrow> None
         | Some l \<Rightarrow>
            (case table_at (table v) (right_phase v) of
               None \<Rightarrow> None
             | Some r \<Rightarrow>
                 Some (\<lparr>left = l, right = r\<rparr>,
                       v\<lparr>left_phase := advance_phase (left_phase v) (hz (curr_note v)),
                         right_phase := advance_phase (right_phase v) (hz (curr_note v))\<rparr>))))"

section \<open>The audio callback\<close>

text \<open>
  The first loop of \<open>paCallback\<close>, for one voice: a voice with no current note
  (\<open>frames_played = -1\<close>) reads one event from its ring buffer, or takes the \<open>WAITING\<close>
  placeholder when the buffer is empty; an \<open>END\<close> event posts the semaphore and is
  replaced by the placeholder. The length of the event in frames is the product
  \<open>(ms / 1000.0) * SAMPLE_RATE\<close>, converted to \<open>unsigned long\<close>.
\<close>

definition refill :: "osc \<Rightarrow> osc option" where
  "refill v =
     (if frames_played v = - 1 then
        (let v1 = (case rbuf v of
                     [] \<Rightarrow> v\<lparr>curr_note := \<lparr>type = WAITING, ms = 0, hz = 0\<rparr>\<rparr>
                   | n # q \<Rightarrow> v\<lparr>rbuf := q, curr_note := n\<rparr>);
             v2 = (if type (curr_note v1) = END
                   then v1\<lparr>finished := finished v1 + 1,
                          curr_note := \<lparr>type = WAITING, ms = 0, hz = 0\<rparr>\<rparr>
                   else v1)
         in (case ulong_of_double ((real_of_int (ms (curr_note v2)) / 1000) * real SAMPLE_RATE) of
               None \<Rightarrow> None
             | Some n \<Rightarrow> Some (v2\<lparr>frames_played := 0, num_frames := n\<rparr>)))
      else Some v)"

text \<open>The loops over the array \<open>osc\<close> of \<open>NUM_OSCILLATORS\<close> voices run over the list of voices.\<close>

fun refill_all :: "osc list \<Rightarrow> osc list option" where
  "refill_all [] = Some []"
| "refill_all (v # vs) =
     (case refill v of
        None \<Rightarrow> None
      | Some v' \<Rightarrow> (case refill_all vs of None \<Rightarrow> None | Some vs' \<Rightarrow> Some (v' # vs')))"

text \<open>
  The volume of a voice at frame \<open>i\<close> of a buffer of \<open>fpb\<close> frames. The second test
  compares two \<open>unsigned long\<close> values: \<open>frames_played\<close> converted, and the wrapping
  difference \<open>num_frames - framesPerBuffer\<close>.
\<close>

definition set_vol :: "nat \<Rightarrow> nat \<Rightarrow> osc \<Rightarrow> osc" where
  "set_vol i fpb v =
     (if frames_played v = 0 then v\<lparr>vol := real (i + 1) / real fpb\<rparr>
      else if ulong_of_int (frames_played v) \<ge> ulong_sub (num_frames v) fpb
      then v\<lparr>vol := 1 - real (i + 1) / real fpb\<rparr>
      else v\<lparr>vol := 1\<rparr>)"

text \<open>The inner loop over the voices at frame \<open>i\<close>; \<open>cf\<close> is \<open>curr_frame\<close>.\<close>

fun render_voices :: "nat \<Rightarrow> nat \<Rightarrow> frame \<Rightarrow> osc list \<Rightarrow> (frame \<times> osc list) option" where
  "render_voices i fpb cf [] = Some (cf, [])"
| "render_voices i fpb cf (v # vs) =
     (case getNextFrame (set_vol i fpb v) of
        None \<Rightarrow> None
      | Some (tf, v') \<Rightarrow>
          (case render_voices i fpb
                  \<lparr>left = left cf + left tf / real NUM_OSCILLATORS,
                   right = right cf + right tf / real NUM_OSCILLATORS\<rparr> vs of
             None \<Rightarrow> None
           | Some (cf', vs') \<Rightarrow> Some (cf', v' # vs')))"

text \<open>The loop over the frames of the buffer, from frame \<open>i\<close> on.\<close>

function render_frames :: "nat \<Rightarrow> nat \<Rightarrow> osc list \<Rightarrow> (frame list \<times> osc list) option" where
  "render_frames i fpb vs =
     (if i < fpb then
        (case render_voices i fpb \<lparr>left = 0, right = 0\<rparr> vs of
           None \<Rightarrow> None
         | Some (cf, vs') \<Rightarrow>
             (case render_frames (i + 1) fpb vs' of
                None \<Rightarrow> None
              | Some (buf, vs'') \<Rightarrow> Some (cf # buf, vs'')))
      else Some ([], vs))"
  by pat_completeness auto
termination
  by (relation "measure (\<lambda>(i, fpb, vs). fpb - i)") auto

text \<open>
  The last loop, for one voice. The sum \<open>frames_played + framesPerBuffer\<close> is computed
  in \<open>unsigned long\<close> and stored in an \<open>int\<close>; the comparison with \<open>num_frames\<close> is
  unsigned.
\<close>

definition bookkeep :: "nat \<Rightarrow> osc \<Rightarrow> osc" where
  "bookkeep fpb v =
     (let v1 = (if type (curr_note v) \<noteq> WAITING
                then v\<lparr>frames_played := int_of_ulong (ulong_add (ulong_of_int (frames_played v)) fpb)\<rparr>
                else v)
      in if ulong_of_int (frames_played v1) \<ge> num_frames v1
         then v1\<lparr>frames_played := - 1, num_frames := 0\<rparr>
         else v1)"

text \<open>The output buffer: left and right sample of each frame, interleaved.\<close>

definition interleave :: "frame list \<Rightarrow> real list" where
  "interleave buf = concat (map (\<lambda>f. [left f, right f]) buf)"

definition paCallback :: "nat \<Rightarrow> osc list \<Rightarrow> (real list \<times> osc list) option" where
  "paCallback framesPerBuffer vs =
     (case refill_all vs of
        None \<Rightarrow> None
      | Some vs1 \<Rightarrow>
          (case render_frames 0 framesPerBuffer vs1 of
             None \<Rightarrow> None
           | Some (buf, vs2) \<Rightarrow> Some (interleave buf, map (bookkeep framesPerBuffer) vs2)))"

section \<open>The control thread\<close>

text \<open>\<open>PaUtil_WriteRingBuffer\<close> of one element: nothing is written to a full buffer.\<close>

definition write_rbuf :: "note_t \<Rightarrow> osc \<Rightarrow> osc" where
  "write_rbuf n v = (if length (rbuf v) < RBUF_CAPACITY then v\<lparr>rbuf := rbuf v @ [n]\<rparr> else v)"

text \<open>The arguments are \<open>unsigned int\<close>; \<open>n.ms = ms\<close> converts to \<open>int\<close>.\<close>

definition playOsc :: "nat \<Rightarrow> nat \<Rightarrow> real \<Rightarrow> osc list \<Rightarrow> osc list" where
  "playOsc osc_id dur freq vs =
     (if osc_id \<ge> NUM_OSCILLATORS then vs
      else vs[osc_id := write_rbuf \<lparr>type = NOTE, ms = int_of_ulong dur, hz = freq\<rparr> (vs ! osc_id)])"

definition restOsc :: "nat \<Rightarrow> nat \<Rightarrow> osc list \<Rightarrow> osc list" where
  "restOsc osc_id dur vs =
     (if osc_id \<ge> NUM_OSCILLATORS then vs
      else vs[osc_id := write_rbuf \<lparr>type = REST, ms = int_of_ulong dur, hz = 0\<rparr> (vs ! osc_id)])"

definition endOsc :: "nat \<Rightarrow> osc list \<Rightarrow> osc list" where
  "endOsc osc_id vs =
     (if osc_id \<ge> NUM_OSCILLATORS then vs
      else vs[osc_id := write_rbuf \<lparr>type = END, ms = 0, hz = 0\<rparr> (vs ! osc_id)])"

text \<open>
  \<open>initOscillators\<close>: the global array is zero-initialised, so \<open>curr_note\<close> starts as
  all zeros; \<open>num_frames = -1\<close> stores the largest \<open>unsigned long\<close>.
\<close>

definition initOscillators :: "tables \<Rightarrow> osc list" where
  "initOscillators T =
     (let vs = map (\<lambda>i. \<lparr>rbuf = [], table = sine T, vol = 0, left_phase = 0, right_phase = 0,
                          frames_played = - 1, num_frames = ulong_of_int (- 1),
                          curr_note = \<lparr>type = 0, ms = 0, hz = 0\<rparr>, finished = 0\<rparr>)
                   [0..<NUM_OSCILLATORS];
          vs0 = vs[0 := (vs ! 0)\<lparr>table := sine T\<rparr>]
      in vs0[1 := (vs0 ! 1)\<lparr>table := saw T\<rparr>])"


text \<open>
  The states of the voice array: \<open>initSynth\<close> builds the tables and the voices and opens
  the stream with \<open>FRAMES_PER_BUFFER\<close> frames per buffer; from then on calls of the
  control thread and runs of the callback interleave.
\<close>

inductive reachable :: "osc list \<Rightarrow> bool" where
  reach_init: "reachable (initOscillators (initTables zero_tables))"
| reach_play: "reachable vs \<Longrightarrow> dur < 2 ^ 32 \<Longrightarrow> reachable (playOsc osc_id dur freq vs)"
| reach_rest: "reachable vs \<Longrightarrow> dur < 2 ^ 32 \<Longrightarrow> reachable (restOsc osc_id dur vs)"
| reach_end: "reachable vs \<Longrightarrow> reachable (endOsc osc_id vs)"
| reach_callback:
    "reachable vs \<Longrightarrow> paCallback FRAMES_PER_BUFFER vs = Some (buf, vs') \<Longrightarrow> reachable vs'"

section \<open>One voice across callbacks\<close>

text \<open>
  What one run of the callback does to a single voice: the three loops treat the voices
  independently of each other, apart from the sum written to the output buffer
  (lemma \<open>paCallback_voice\<close> below).
\<close>

function voice_frames :: "nat \<Rightarrow> nat \<Rightarrow> osc \<Rightarrow> osc option" where
  "voice_frames i fpb v =
     (if i < fpb then
        (case getNextFrame (set_vol i fpb v) of
           None \<Rightarrow> None
         | Some (tf, v') \<Rightarrow> voice_frames (i + 1) fpb v')
      else Some v)"
  by pat_completeness auto
termination
  by (relation "measure (\<lambda>(i, fpb, v). fpb - i)") auto

definition voice_callback :: "nat \<Rightarrow> osc \<Rightarrow> osc option" where
  "voice_callback fpb v =
     (case refill v of
        None \<Rightarrow> None
      | Some v1 \<Rightarrow>
          (case voice_frames 0 fpb v1 of
             None \<Rightarrow> None
           | Some v2 \<Rightarrow> Some (bookkeep fpb v2)))"

text \<open>\<open>n\<close> runs of the callback in a row.\<close>

fun callbacks :: "nat \<Rightarrow> nat \<Rightarrow> osc \<Rightarrow> osc option" where
  "callbacks 0 fpb v = Some v"
| "callbacks (Suc n) fpb v =
     (case voice_callback fpb v of None \<Rightarrow> None | Some v' \<Rightarrow> callbacks n fpb v')"

text \<open>
  The number of callbacks a voice takes to come back to the state without a current
  note, searched among the first \<open>fuel\<close> callbacks; \<open>None\<close> when there is none among
  them or a callback fails.
\<close>

fun occupied_buffers :: "nat \<Rightarrow> nat \<Rightarrow> osc \<Rightarrow> nat option" where
  "occupied_buffers 0 fpb v = None"
| "occupied_buffers (Suc fuel) fpb v =
     (case voice_callback fpb v of
        None \<Rightarrow> None
      | Some v' \<Rightarrow>
          if frames_played v' = - 1 then Some 1
          else map_option Suc (occupied_buffers fuel fpb v'))"

text \<open>\<open>n\<close> calls of \<open>getNextFrame\<close> in a row on one voice.\<close>

fun next_frames :: "nat \<Rightarrow> osc \<Rightarrow> (frame list \<times> osc) option" where
  "next_frames 0 v = Some ([], v)"
| "next_frames (Suc n) v =
     (case getNextFrame v of
        None \<Rightarrow> None
      | Some (f, v') \<Rightarrow>
          (case next_frames n v' of None \<Rightarrow> None | Some (fs, v'') \<Rightarrow> Some (f # fs, v'')))"

section \<open>Quantities of the specification\<close>

text \<open>The length of an event in frames as the callback computes it, for \<open>ms \<ge> 0\<close>.\<close>

definition event_frames :: "int \<Rightarrow> nat" where
  "event_frames d = nat ((d * 441) div 10)"

text \<open>The number of buffers an event of \<open>d\<close> milliseconds stays in its voice.\<close>

definition event_buffers :: "int \<Rightarrow> nat" where
  "event_buffers d = max 1 ((event_frames d + FRAMES_PER_BUFFER - 1) div FRAMES_PER_BUFFER)"


text \<open>
  The specification's words: the rendered duration is
  \<open>ceil(duration_ms / 1000 * sample_rate / frames_per_buffer) * frames_per_buffer\<close>.
\<close>

definition spec_rendered_samples :: "int \<Rightarrow> int" where
  "spec_rendered_samples d =
     \<lceil>real_of_int d / 1000 * real SAMPLE_RATE / real FRAMES_PER_BUFFER\<rceil> * int FRAMES_PER_BUFFER"

text \<open>
  The specification's words for the envelope, over the integers: \<open>(i+1)/fpb\<close> when
  \<open>frames_played = 0\<close>; \<open>1 - (i+1)/fpb\<close> when \<open>frames_played \<noteq> 0\<close> and
  \<open>frames_played \<ge> frames_total - fpb\<close>; \<open>1\<close> otherwise.
\<close>

definition spec_volume :: "nat \<Rightarrow> nat \<Rightarrow> int \<Rightarrow> int \<Rightarrow> real" where
  "spec_volume i fpb fplayed ftotal =
     (if fplayed = 0 then (real i + 1) / real fpb
      else if fplayed \<noteq> 0 \<and> fplayed \<ge> ftotal - int fpb then 1 - (real i + 1) / real fpb
      else 1)"

text \<open>The conditions under which the theorems below follow a voice.\<close>

definition idle :: "osc \<Rightarrow> bool" where
  "idle v \<longleftrightarrow> frames_played v = - 1"

definition phase_ok :: "real \<Rightarrow> bool" where
  "phase_ok ph \<longleftrightarrow> 0 \<le> ph \<and> ph < real TABLE_SIZE"

definition voice_ok :: "osc \<Rightarrow> bool" where
  "voice_ok v \<longleftrightarrow>
     length (table v) = TABLE_SIZE \<and> phase_ok (left_phase v) \<and> phase_ok (right_phase v)"

text \<open>Two states of a voice that differ at most in the phases and the volume.\<close>

definition same_event :: "osc \<Rightarrow> osc \<Rightarrow> bool" where
  "same_event v v' \<longleftrightarrow>
     rbuf v' = rbuf v \<and> table v' = table v \<and> frames_played v' = frames_played v \<and>
     num_frames v' = num_frames v \<and> curr_note v' = curr_note v \<and> finished v' = finished v"

text \<open>
  An event as \<open>playOsc\<close> and \<open>restOsc\<close> queue it, with a frequency in the audio range
  and a length in frames that fits an \<open>int\<close>.
\<close>

definition note_ok :: "note_t \<Rightarrow> bool" where
  "note_ok e \<longleftrightarrow>
     (type e = NOTE \<or> type e = REST) \<and> 0 \<le> ms e \<and> ms e \<le> 48695774 \<and>
     0 \<le> hz e \<and> hz e \<le> 20000"

text \<open>
  A voice in the middle of a note or rest: the event is one that \<open>note_ok\<close> admits,
  some of its frames are played and some are left.
\<close>

definition playing :: "osc \<Rightarrow> bool" where
  "playing v \<longleftrightarrow>
     voice_ok v \<and> note_ok (curr_note v) \<and> 0 < frames_played v \<and>
     frames_played v < int (num_frames v) \<and> num_frames v = event_frames (ms (curr_note v))"



text \<open>
  The counters of a voice inside the frame loop of the callback: a fresh event, or an
  event with whole buffers played and frames left. Between two callbacks a voice is
  without a current note or in such a state; the milliseconds of a queued event are
  those of a C \<open>int\<close>.
\<close>

definition rendering :: "osc \<Rightarrow> bool" where
  "rendering v \<longleftrightarrow>
     (frames_played v = 0 \<or>
      (int FRAMES_PER_BUFFER \<le> frames_played v \<and> frames_played v < int (num_frames v) \<and>
       frames_played v < 2 ^ 31)) \<and>
     num_frames v < 2 ^ 37"

definition counters_ok :: "osc \<Rightarrow> bool" where
  "counters_ok v \<longleftrightarrow> idle v \<or> rendering v"

definition ms_bounded :: "osc \<Rightarrow> bool" where
  "ms_bounded v \<longleftrightarrow> list_all (\<lambda>e. ms e < 2 ^ 31) (rbuf v)"

section \<open>Lemmas\<close>

declare voice_frames.simps [simp del] render_frames.simps [simp del]

lemmas note_type_defs = NOTE_def REST_def WAITING_def END_def

subsection \<open>The tables\<close>

lemma fill_table_aux:
  "length (fold (\<lambda>i t. t[i := f i]) [0..<n] t) = length t \<and>
   (\<forall>i < length t. fold (\<lambda>i t. t[i := f i]) [0..<n] t ! i = (if i < n then f i else t ! i))"
  by (induction n) (auto simp: nth_list_update less_Suc_eq)

lemma length_fill_table: "length (fill_table f t) = length t"
  by (simp add: fill_table_def fill_table_aux)

lemma nth_fill_table:
  "i < TABLE_SIZE \<Longrightarrow> i < length t \<Longrightarrow> fill_table f t ! i = f i"
  by (simp add: fill_table_def fill_table_aux)

lemma initTables_sine:
  "sine (initTables T) = fill_table (\<lambda>i. sin ((real i / real TABLE_SIZE) * pi * 2)) (sine T)"
  by (simp add: initTables_def Let_def)

lemma initTables_noise:
  "noise (initTables T) = fill_table (\<lambda>i. sin ((real i / real TABLE_SIZE) * pi * 2)) (noise T)"
  by (simp add: initTables_def Let_def)

lemma initTables_saw:
  "saw (initTables T) = fill_table (\<lambda>i. 1 - 2 * (real i / real TABLE_SIZE)) (saw T)"
  by (simp add: initTables_def Let_def)

lemma fill_table_eq:
  assumes "length s = TABLE_SIZE" "length t = TABLE_SIZE"
  shows "fill_table f s = fill_table f t"
proof (rule nth_equalityI)
  show "length (fill_table f s) = length (fill_table f t)"
    using assms by (simp add: length_fill_table)
next
  fix i assume "i < length (fill_table f s)"
  then have "i < TABLE_SIZE" using assms by (simp add: length_fill_table)
  then show "fill_table f s ! i = fill_table f t ! i"
    using assms by (simp add: nth_fill_table)
qed

lemma saw_at_0: "table_at (saw (initTables zero_tables)) 0 = Some 1"
  by (simp add: table_at_def int_of_double_def c_trunc_def initTables_saw length_fill_table
      nth_fill_table zero_tables_def TABLE_SIZE_def)

subsection \<open>The length of an event\<close>

lemma frames_product: "real_of_int d / 1000 * real SAMPLE_RATE = real_of_int (d * 441) / real_of_int 10"
  by (simp add: SAMPLE_RATE_def)

lemma floor_frames_product: "\<lfloor>real_of_int d / 1000 * real SAMPLE_RATE\<rfloor> = (d * 441) div 10"
  unfolding frames_product by (rule floor_divide_of_int_eq)

lemma ulong_of_double_frames:
  assumes "0 \<le> d" "d < 2 ^ 31"
  shows "ulong_of_double (real_of_int d / 1000 * real SAMPLE_RATE) = Some (event_frames d)"
proof -
  define x where "x = real_of_int d / 1000 * real SAMPLE_RATE"
  have fl: "\<lfloor>x\<rfloor> = (d * 441) div 10"
    unfolding x_def by (rule floor_frames_product)
  have nonneg: "0 \<le> x"
    unfolding x_def using assms by (simp add: SAMPLE_RATE_def)
  have ct: "c_trunc x = (d * 441) div 10"
    using nonneg fl by (simp add: c_trunc_def)
  have b: "(d * 441) div 10 < 2 ^ 64" "0 \<le> (d * 441) div 10"
    using assms by simp_all
  show ?thesis
    unfolding x_def [symmetric] using ct b by (simp add: ulong_of_double_def event_frames_def)
qed

lemma ulong_of_double_frames_nf:
  assumes "0 \<le> d" "d < 2 ^ 31"
  shows "ulong_of_double (real_of_int d * real SAMPLE_RATE / 1000) = Some (event_frames d)"
  using ulong_of_double_frames [OF assms] by simp

lemma refill_event:
  assumes "frames_played v = - 1" and "rbuf v = e # q" and "type e \<noteq> END"
    and "0 \<le> ms e" and "ms e < 2 ^ 31"
  shows "refill v = Some (v\<lparr>rbuf := q, curr_note := e, frames_played := 0,
                            num_frames := event_frames (ms e)\<rparr>)"
  using assms by (simp add: refill_def Let_def ulong_of_double_frames_nf)

subsection \<open>Phases and table reads\<close>

lemma advance_phase_ok:
  assumes "phase_ok ph" "0 \<le> f" "f \<le> 44100"
  shows "phase_ok (advance_phase ph f)"
proof -
  have "f / real TABLE_SIZE \<le> real TABLE_SIZE" "0 \<le> f / real TABLE_SIZE"
    using assms by (simp_all add: TABLE_SIZE_def)
  then show ?thesis
    using assms(1) by (auto simp: phase_ok_def advance_phase_def Let_def)
qed

lemma int_of_double_phase:
  assumes "phase_ok ph"
  shows "int_of_double ph = Some \<lfloor>ph\<rfloor> \<and> 0 \<le> \<lfloor>ph\<rfloor> \<and> \<lfloor>ph\<rfloor> < int TABLE_SIZE"
proof -
  have a: "0 \<le> \<lfloor>ph\<rfloor>" using assms by (simp add: phase_ok_def)
  have b: "\<lfloor>ph\<rfloor> < int TABLE_SIZE" using assms by (simp add: phase_ok_def floor_less_iff)
  then have "\<lfloor>ph\<rfloor> < 2 ^ 31" by (simp add: TABLE_SIZE_def)
  then show ?thesis using a b assms by (simp add: int_of_double_def c_trunc_def phase_ok_def)
qed

lemma table_at_phase:
  assumes "length t = TABLE_SIZE" "phase_ok ph"
  shows "table_at t ph = Some (t ! nat \<lfloor>ph\<rfloor>)"
  using int_of_double_phase [OF assms(2)] assms(1) by (simp add: table_at_def)

lemma getNextFrame_cases:
  "getNextFrame v = Some (f, v') \<Longrightarrow>
     same_event v v' \<and> vol v' = vol v"
  by (auto simp: getNextFrame_def same_event_def split: if_splits option.splits)

lemma getNextFrame_ok:
  assumes "voice_ok v" "0 \<le> hz (curr_note v)" "hz (curr_note v) \<le> 44100"
  shows "\<exists>f v'. getNextFrame v = Some (f, v') \<and> voice_ok v'"
proof (cases "type (curr_note v) = REST \<or> type (curr_note v) = WAITING \<or> type (curr_note v) = END")
  case True
  then show ?thesis using assms(1) by (simp add: getNextFrame_def)
next
  case False
  have l: "table_at (table v) (left_phase v) = Some (table v ! nat \<lfloor>left_phase v\<rfloor>)"
    and r: "table_at (table v) (right_phase v) = Some (table v ! nat \<lfloor>right_phase v\<rfloor>)"
    using assms(1) by (simp_all add: voice_ok_def table_at_phase)
  have "phase_ok (advance_phase (left_phase v) (hz (curr_note v)))"
       "phase_ok (advance_phase (right_phase v) (hz (curr_note v)))"
    using assms by (simp_all add: voice_ok_def advance_phase_ok)
  then show ?thesis using False l r assms(1) by (simp add: getNextFrame_def voice_ok_def)
qed

lemma next_frames_ok:
  assumes "voice_ok v" "0 \<le> hz (curr_note v)" "hz (curr_note v) \<le> 44100"
  shows "\<exists>fs v'. next_frames n v = Some (fs, v') \<and> voice_ok v' \<and> same_event v v'"
  using assms
proof (induction n arbitrary: v)
  case 0
  then show ?case by (simp add: same_event_def)
next
  case (Suc n)
  from getNextFrame_ok [OF Suc.prems] obtain f v1
    where s1: "getNextFrame v = Some (f, v1)" "voice_ok v1" by blast
  from getNextFrame_cases [OF s1(1)] have se: "same_event v v1" by simp
  then have "0 \<le> hz (curr_note v1)" "hz (curr_note v1) \<le> 44100"
    using Suc.prems by (simp_all add: same_event_def)
  from Suc.IH [OF s1(2) this] obtain fs v2
    where s2: "next_frames n v1 = Some (fs, v2)" "voice_ok v2" "same_event v1 v2" by blast
  then show ?case using s1 se by (simp add: same_event_def)
qed

subsection \<open>The frame loop on one voice\<close>

lemma same_event_refl: "same_event v v"
  by (simp add: same_event_def)

lemma same_event_trans: "same_event u v \<Longrightarrow> same_event v w \<Longrightarrow> same_event u w"
  by (simp add: same_event_def)

lemma set_vol_eq: "\<exists>a. set_vol i fpb v = v\<lparr>vol := a\<rparr>"
  by (auto simp: set_vol_def)

lemma set_vol_same: "same_event v (set_vol i fpb v)"
  by (simp add: set_vol_def same_event_def)

lemma set_vol_voice_ok: "voice_ok (set_vol i fpb v) = voice_ok v"
  by (simp add: set_vol_def voice_ok_def)

lemma set_vol_curr_note: "curr_note (set_vol i fpb v) = curr_note v"
  by (simp add: set_vol_def)

lemma voice_frames_same:
  "voice_frames i fpb v = Some v' \<Longrightarrow> same_event v v'"
proof (induction i fpb v rule: voice_frames.induct)
  case (1 i fpb v)
  show ?case
  proof (cases "i < fpb")
    case False
    then show ?thesis using "1.prems" by (simp add: same_event_refl voice_frames.simps [of i fpb v])
  next
    case True
    then obtain tf v1 where g: "getNextFrame (set_vol i fpb v) = Some (tf, v1)"
      and r: "voice_frames (i + 1) fpb v1 = Some v'"
      using "1.prems" by (auto simp: voice_frames.simps [of i fpb v] split: option.splits)
    have "same_event (set_vol i fpb v) v1" using getNextFrame_cases [OF g] by simp
    then have a: "same_event v v1" using set_vol_same same_event_trans by blast
    have "same_event v1 v'" using "1.IH" [OF True g refl r] .
    then show ?thesis using a same_event_trans by blast
  qed
qed

lemma voice_frames_ok:
  "voice_ok v \<Longrightarrow> 0 \<le> hz (curr_note v) \<Longrightarrow> hz (curr_note v) \<le> 44100 \<Longrightarrow>
     \<exists>v'. voice_frames i fpb v = Some v' \<and> voice_ok v'"
proof (induction i fpb v rule: voice_frames.induct)
  case (1 i fpb v)
  show ?case
  proof (cases "i < fpb")
    case False
    then show ?thesis using "1.prems" by (simp add: voice_frames.simps [of i fpb v])
  next
    case True
    have "voice_ok (set_vol i fpb v)" using "1.prems" by (simp add: set_vol_voice_ok)
    from getNextFrame_ok [OF this] "1.prems" obtain tf v1
      where g: "getNextFrame (set_vol i fpb v) = Some (tf, v1)" and ok: "voice_ok v1"
      by (auto simp: set_vol_curr_note)
    have "curr_note v1 = curr_note v"
      using getNextFrame_cases [OF g] by (simp add: same_event_def set_vol_curr_note)
    then have "\<exists>v'. voice_frames (i + 1) fpb v1 = Some v' \<and> voice_ok v'"
      using "1.IH" [OF True g refl ok] "1.prems" by simp
    then show ?thesis using True g by (simp add: voice_frames.simps [of i fpb v])
  qed
qed

lemma voice_frames_silent:
  "type (curr_note v) = REST \<or> type (curr_note v) = WAITING \<or> type (curr_note v) = END \<Longrightarrow>
     \<exists>a. voice_frames i fpb v = Some (v\<lparr>vol := a\<rparr>)"
proof (induction i fpb v rule: voice_frames.induct)
  case (1 i fpb v)
  show ?case
  proof (cases "i < fpb")
    case False
    then have "voice_frames i fpb v = Some (v\<lparr>vol := vol v\<rparr>)"
      by (simp add: voice_frames.simps [of i fpb v])
    then show ?thesis by blast
  next
    case True
    obtain a where a: "set_vol i fpb v = v\<lparr>vol := a\<rparr>" using set_vol_eq by blast
    have g: "getNextFrame (set_vol i fpb v) = Some (\<lparr>left = 0, right = 0\<rparr>, v\<lparr>vol := a\<rparr>)"
      using "1.prems" by (simp add: a getNextFrame_def)
    have "\<exists>b. voice_frames (i + 1) fpb (v\<lparr>vol := a\<rparr>) = Some (v\<lparr>vol := a, vol := b\<rparr>)"
      using "1.IH" [OF True g refl] "1.prems" by simp
    then show ?thesis using True g by (simp add: voice_frames.simps [of i fpb v])
  qed
qed

subsection \<open>The counter of played frames\<close>

lemma ulong_of_int_nonneg: "0 \<le> p \<Longrightarrow> p < 2 ^ 64 \<Longrightarrow> ulong_of_int p = nat p"
  by (simp add: ulong_of_int_def)

lemma mod_neg_wrap:
  fixes x m :: int
  assumes "- m \<le> x" "x < 0"
  shows "x mod m = x + m"
proof -
  have "x mod m = (x + m) mod m" by simp
  also have "\<dots> = x + m" using assms by (intro mod_pos_pos_trivial) auto
  finally show ?thesis .
qed

lemma advance_frames_played:
  assumes "0 \<le> p" "p < 2 ^ 31" "n < 2 ^ 31"
  shows "(ulong_of_int (int_of_ulong (ulong_add (ulong_of_int p) FRAMES_PER_BUFFER)) \<ge> n)
           = (p + 210 \<ge> int n)"
    and "p + 210 < int n \<Longrightarrow>
           int_of_ulong (ulong_add (ulong_of_int p) FRAMES_PER_BUFFER) = p + 210"
proof -
  have u: "ulong_of_int p = nat p" using assms by (simp add: ulong_of_int_def)
  have s: "ulong_add (nat p) FRAMES_PER_BUFFER = nat p + 210"
    using assms by (simp add: ulong_add_def FRAMES_PER_BUFFER_def)
  have m: "int (nat p + 210) mod 2 ^ 32 = p + 210" using assms by simp
  show "(ulong_of_int (int_of_ulong (ulong_add (ulong_of_int p) FRAMES_PER_BUFFER)) \<ge> n)
           = (p + 210 \<ge> int n)"
  proof (cases "p + 210 < 2 ^ 31")
    case True
    then have "int_of_ulong (nat p + 210) = p + 210"
      unfolding int_of_ulong_def Let_def m by simp
    then show ?thesis using assms True by (auto simp: u s ulong_of_int_def le_nat_iff)
  next
    case False
    then have i: "int_of_ulong (nat p + 210) = p + 210 - 2 ^ 32"
      unfolding int_of_ulong_def Let_def m by simp
    have "(p + 210 - 2 ^ 32) mod 2 ^ 64 = p + 210 - 2 ^ 32 + 2 ^ 64"
      using assms False by (intro mod_neg_wrap) auto
    then have "ulong_of_int (p + 210 - 2 ^ 32) \<ge> 2 ^ 63"
      using assms False by (simp add: ulong_of_int_def)
    then show ?thesis using assms False by (simp add: u s i)
  qed
  show "int_of_ulong (ulong_add (ulong_of_int p) FRAMES_PER_BUFFER) = p + 210" if "p + 210 < int n"
  proof -
    have "p + 210 < 2 ^ 31" using that assms by simp
    then show ?thesis unfolding u s int_of_ulong_def Let_def m by simp
  qed
qed

lemma bookkeep_playing:
  assumes "type (curr_note v) \<noteq> WAITING" "0 \<le> frames_played v" "frames_played v < 2 ^ 31"
    "num_frames v < 2 ^ 31"
  shows "bookkeep FRAMES_PER_BUFFER v =
     (if frames_played v + 210 \<ge> int (num_frames v)
      then v\<lparr>frames_played := - 1, num_frames := 0\<rparr>
      else v\<lparr>frames_played := frames_played v + 210\<rparr>)"
  using assms advance_frames_played [OF assms(2,3,4)]
  by (simp add: bookkeep_def Let_def)

lemma bookkeep_waiting:
  assumes "type (curr_note v) = WAITING" "frames_played v = 0" "num_frames v = 0"
  shows "bookkeep fpb v = v\<lparr>frames_played := - 1, num_frames := 0\<rparr>"
  using assms by (simp add: bookkeep_def Let_def ulong_of_int_def)

subsection \<open>One callback on one voice\<close>

lemma note_ok_frames: "note_ok e \<Longrightarrow> event_frames (ms e) < 2 ^ 31"
proof -
  assume "note_ok e"
  then have "0 \<le> ms e" "ms e \<le> 48695774" by (simp_all add: note_ok_def)
  then have "(ms e * 441) div 10 < 2 ^ 31" by simp
  then show ?thesis by (simp add: event_frames_def)
qed

lemma note_ok_type: "note_ok e \<Longrightarrow> type e \<noteq> END \<and> type e \<noteq> WAITING"
  by (auto simp: note_ok_def note_type_defs)

lemma voice_callback_start:
  assumes "idle v" "voice_ok v" "rbuf v = e # q" "note_ok e"
  shows "\<exists>v'. voice_callback FRAMES_PER_BUFFER v = Some v' \<and> voice_ok v' \<and> rbuf v' = q \<and>
           curr_note v' = e \<and> finished v' = finished v \<and> table v' = table v \<and>
           (if event_frames (ms e) \<le> 210 then frames_played v' = - 1 \<and> num_frames v' = 0
            else frames_played v' = 210 \<and> num_frames v' = event_frames (ms e))"
proof -
  define v1 where "v1 = v\<lparr>rbuf := q, curr_note := e, frames_played := 0,
                          num_frames := event_frames (ms e)\<rparr>"
  have ms: "0 \<le> ms e" "ms e < 2 ^ 31" "0 \<le> hz e" "hz e \<le> 44100"
    using assms(4) by (simp_all add: note_ok_def)
  have r: "refill v = Some v1"
    unfolding v1_def using assms(1,3) note_ok_type [OF assms(4)] ms
    by (intro refill_event) (simp_all add: idle_def)
  have ok1: "voice_ok v1" using assms(2) by (simp add: v1_def voice_ok_def)
  have "0 \<le> hz (curr_note v1)" "hz (curr_note v1) \<le> 44100" using ms by (simp_all add: v1_def)
  from voice_frames_ok [OF ok1 this] obtain v2
    where f: "voice_frames 0 FRAMES_PER_BUFFER v1 = Some v2" and ok2: "voice_ok v2" by blast
  have se: "same_event v1 v2" using voice_frames_same [OF f] .
  have b: "bookkeep FRAMES_PER_BUFFER v2 =
     (if frames_played v2 + 210 \<ge> int (num_frames v2)
      then v2\<lparr>frames_played := - 1, num_frames := 0\<rparr>
      else v2\<lparr>frames_played := frames_played v2 + 210\<rparr>)"
    using se note_ok_type [OF assms(4)] note_ok_frames [OF assms(4)]
    by (intro bookkeep_playing) (simp_all add: same_event_def v1_def)
  have c: "voice_callback FRAMES_PER_BUFFER v = Some (bookkeep FRAMES_PER_BUFFER v2)"
    by (simp add: voice_callback_def r f)
  show ?thesis
    unfolding c b using se ok2 by (auto simp: same_event_def v1_def voice_ok_def)
qed

lemma voice_callback_playing:
  assumes "playing v"
  shows "\<exists>v'. voice_callback FRAMES_PER_BUFFER v = Some v' \<and> voice_ok v' \<and> rbuf v' = rbuf v \<and>
           curr_note v' = curr_note v \<and> finished v' = finished v \<and> table v' = table v \<and>
           (if frames_played v + 210 \<ge> int (num_frames v)
            then frames_played v' = - 1 \<and> num_frames v' = 0
            else frames_played v' = frames_played v + 210 \<and> num_frames v' = num_frames v)"
proof -
  have ok: "voice_ok v" and nk: "note_ok (curr_note v)" and p: "0 < frames_played v"
    "frames_played v < int (num_frames v)" and n: "num_frames v = event_frames (ms (curr_note v))"
    using assms by (simp_all add: playing_def)
  have r: "refill v = Some v" using p by (simp add: refill_def)
  have "0 \<le> hz (curr_note v)" "hz (curr_note v) \<le> 44100"
    using nk by (simp_all add: note_ok_def)
  from voice_frames_ok [OF ok this] obtain v2
    where f: "voice_frames 0 FRAMES_PER_BUFFER v = Some v2" and ok2: "voice_ok v2" by blast
  have se: "same_event v v2" using voice_frames_same [OF f] .
  have lt: "num_frames v < 2 ^ 31" using note_ok_frames [OF nk] n by simp
  then have "frames_played v < 2 ^ 31" using p by simp
  then have b: "bookkeep FRAMES_PER_BUFFER v2 =
     (if frames_played v2 + 210 \<ge> int (num_frames v2)
      then v2\<lparr>frames_played := - 1, num_frames := 0\<rparr>
      else v2\<lparr>frames_played := frames_played v2 + 210\<rparr>)"
    using se note_ok_type [OF nk] lt p
    by (intro bookkeep_playing) (simp_all add: same_event_def)
  have c: "voice_callback FRAMES_PER_BUFFER v = Some (bookkeep FRAMES_PER_BUFFER v2)"
    by (simp add: voice_callback_def r f)
  show ?thesis
    unfolding c b using se ok2 by (auto simp: same_event_def voice_ok_def)
qed


lemma voice_callback_empty:
  assumes "idle v" "rbuf v = []"
  shows "\<exists>a. voice_callback fpb v =
           Some (v\<lparr>curr_note := \<lparr>type = WAITING, ms = 0, hz = 0\<rparr>,
                   frames_played := - 1, num_frames := 0, vol := a\<rparr>)"
proof -
  define v1 where "v1 = v\<lparr>curr_note := \<lparr>type = WAITING, ms = 0, hz = 0\<rparr>,
                          frames_played := 0, num_frames := 0\<rparr>"
  have r: "refill v = Some v1"
    using assms
    by (simp add: refill_def idle_def Let_def ulong_of_double_def c_trunc_def v1_def
        note_type_defs)
  have "type (curr_note v1) = REST \<or> type (curr_note v1) = WAITING \<or> type (curr_note v1) = END"
    by (simp add: v1_def)
  from voice_frames_silent [OF this] obtain a
    where f: "voice_frames 0 fpb v1 = Some (v1\<lparr>vol := a\<rparr>)" by blast
  have b: "bookkeep fpb (v1\<lparr>vol := a\<rparr>) = v1\<lparr>vol := a, frames_played := - 1, num_frames := 0\<rparr>"
    by (intro bookkeep_waiting) (simp_all add: v1_def)
  show ?thesis
    by (rule exI [of _ a]) (simp add: voice_callback_def r f b, simp add: v1_def)
qed

subsection \<open>Arithmetic of the buffer count\<close>

lemma spec_rendered_samples_eq:
  "spec_rendered_samples d = - ((- (21 * d)) div 100) * 210"
proof -
  have "real_of_int d / 1000 * real SAMPLE_RATE / real FRAMES_PER_BUFFER
        = real_of_int (21 * d) / real_of_int 100"
    by (simp add: SAMPLE_RATE_def FRAMES_PER_BUFFER_def)
  then show ?thesis
    unfolding spec_rendered_samples_def
    by (simp only: ceiling_divide_eq_div) (simp add: FRAMES_PER_BUFFER_def)
qed

lemma ceil_div_100:
  fixes a :: int
  shows "100 * (- ((- a) div 100)) - 100 < a" and "a \<le> 100 * (- ((- a) div 100))"
proof -
  define q where "q = (- a) div 100"
  define r where "r = (- a) mod 100"
  have e: "100 * q + r = - a" by (simp add: q_def r_def)
  have m: "0 \<le> r" "r < 100" by (simp_all add: r_def)
  have a: "a = - (100 * q) - r" using e by simp
  show "100 * (- ((- a) div 100)) - 100 < a"
    unfolding q_def [symmetric] using a m by simp
  show "a \<le> 100 * (- ((- a) div 100))"
    unfolding q_def [symmetric] using a m by simp
qed

lemma buffers_arith:
  fixes d :: int
  shows "(d * 441 div 10 + 209) div 210 = - ((- (21 * d)) div 100)"
proof -
  define c where "c = - ((- (21 * d)) div 100)"
  define n where "n = d * 441 div 10"
  have c1: "100 * c - 100 < 21 * d" and c2: "21 * d \<le> 100 * c"
    unfolding c_def by (rule ceil_div_100)+
  define r where "r = (d * 441) mod 10"
  have e: "10 * n + r = d * 441" by (simp add: n_def r_def)
  have m: "0 \<le> r" "r < 10" by (simp_all add: r_def)
  have n1: "10 * n \<le> 441 * d" and n2: "441 * d < 10 * n + 10"
    using e m by linarith+
  have lo: "210 * c - 208 \<le> n" using c1 n2 by linarith
  have hi: "n \<le> 210 * c" using c2 n1 by linarith
  have "(n + 209) div 210 = c"
    by (rule int_div_pos_eq [of _ _ _ "n + 209 - 210 * c"]) (use lo hi in auto)
  then show ?thesis by (simp add: c_def n_def)
qed

lemma event_buffers_eq:
  assumes "0 \<le> d"
  shows "int (event_buffers d) = (if d = 0 then 1 else - ((- (21 * d)) div 100))"
proof (cases "d = 0")
  case True
  then show ?thesis by (simp add: event_buffers_def event_frames_def FRAMES_PER_BUFFER_def)
next
  case False
  then have pos: "0 < d" using assms by simp
  then have nn: "0 \<le> d * 441 div 10" by simp
  have "int ((event_frames d + FRAMES_PER_BUFFER - 1) div FRAMES_PER_BUFFER)
        = (d * 441 div 10 + 209) div 210"
    using nn by (simp add: event_frames_def FRAMES_PER_BUFFER_def zdiv_int)
  also have "\<dots> = - ((- (21 * d)) div 100)" by (rule buffers_arith)
  finally have e: "int ((event_frames d + FRAMES_PER_BUFFER - 1) div FRAMES_PER_BUFFER)
        = - ((- (21 * d)) div 100)" .
  have "1 \<le> - ((- (21 * d)) div 100)" using pos ceil_div_100 (2) [of "21 * d"] by linarith
  then show ?thesis using False e by (simp add: event_buffers_def)
qed

lemma event_buffers_spec:
  assumes "0 \<le> d"
  shows "int (event_buffers d * FRAMES_PER_BUFFER) =
           (if d = 0 then int FRAMES_PER_BUFFER else spec_rendered_samples d)"
  using event_buffers_eq [OF assms]
  by (simp add: spec_rendered_samples_eq FRAMES_PER_BUFFER_def)

lemma event_buffers_covers:
  assumes "0 \<le> d"
  shows "real_of_int d / 1000 * real SAMPLE_RATE \<le> real (event_buffers d * FRAMES_PER_BUFFER)"
proof -
  have "21 * d \<le> 100 * (- ((- (21 * d)) div 100))" by (rule ceil_div_100)
  moreover have "- ((- (21 * d)) div 100) \<le> int (event_buffers d)"
    using event_buffers_eq [OF assms] by (cases "d = 0") simp_all
  ultimately have "21 * d \<le> 100 * int (event_buffers d)" by linarith
  then have "real_of_int (21 * d) \<le> real_of_int (100 * int (event_buffers d))"
    by (simp only: of_int_le_iff)
  then show ?thesis by (simp add: SAMPLE_RATE_def FRAMES_PER_BUFFER_def)
qed

subsection \<open>Runs of callbacks\<close>


lemma playing_not_idle: "playing v \<Longrightarrow> \<not> idle v"
  by (simp add: playing_def idle_def)

lemma div_210_step:
  fixes x :: int
  assumes "210 < x"
  shows "nat ((x - 1) div 210) = Suc (nat ((x - 210 - 1) div 210))"
proof -
  have "(x - 1) div 210 = ((x - 211) + 210) div 210" by simp
  also have "\<dots> = (x - 211) div 210 + 1" by (simp only: div_add_self2)
  finally have e: "(x - 1) div 210 = (x - 211) div 210 + 1" .
  have "0 \<le> (x - 211) div 210" using assms by simp
  then show ?thesis using e by simp
qed

lemma run_playing:
  "playing v \<Longrightarrow>
   r = Suc (nat ((int (num_frames v) - frames_played v - 1) div 210)) \<Longrightarrow> r \<le> fuel \<Longrightarrow>
     occupied_buffers fuel FRAMES_PER_BUFFER v = Some r \<and>
     (\<exists>v'. callbacks r FRAMES_PER_BUFFER v = Some v' \<and> idle v' \<and> voice_ok v' \<and>
            rbuf v' = rbuf v \<and> finished v' = finished v \<and> table v' = table v \<and>
            curr_note v' = curr_note v) \<and>
     (\<forall>j<r. \<exists>w. callbacks j FRAMES_PER_BUFFER v = Some w \<and> \<not> idle w \<and>
            curr_note w = curr_note v)"
proof (induction fuel arbitrary: v r)
  case 0
  then show ?case by simp
next
  case (Suc fuel)
  from voice_callback_playing [OF Suc.prems(1)] obtain v'
    where c: "voice_callback FRAMES_PER_BUFFER v = Some v'" and ok: "voice_ok v'"
      and same: "rbuf v' = rbuf v" "curr_note v' = curr_note v" "finished v' = finished v"
        "table v' = table v"
      and fp: "if frames_played v + 210 \<ge> int (num_frames v)
               then frames_played v' = - 1 \<and> num_frames v' = 0
               else frames_played v' = frames_played v + 210 \<and> num_frames v' = num_frames v"
    by blast
  have p: "0 < frames_played v" "frames_played v < int (num_frames v)"
    using Suc.prems(1) by (simp_all add: playing_def)
  show ?case
  proof (cases "frames_played v + 210 \<ge> int (num_frames v)")
    case True
    then have i: "frames_played v' = - 1" using fp by simp
    have "(int (num_frames v) - frames_played v - 1) div 210 = 0"
      using True p by (intro div_pos_pos_trivial) auto
    then have r: "r = 1" using Suc.prems(2) by simp
    have "\<forall>j<(1::nat). \<exists>w. callbacks j FRAMES_PER_BUFFER v = Some w \<and> \<not> idle w \<and>
            curr_note w = curr_note v"
      using playing_not_idle [OF Suc.prems(1)] by simp
    then show ?thesis
      unfolding r using c i ok same by (simp add: idle_def)
  next
    case False
    then have f': "frames_played v' = frames_played v + 210" "num_frames v' = num_frames v"
      using fp by simp_all
    have pl: "playing v'"
      using Suc.prems(1) False ok same f' by (simp add: playing_def)
    define r' where "r' = Suc (nat ((int (num_frames v') - frames_played v' - 1) div 210))"
    have "210 < int (num_frames v) - frames_played v" using False by simp
    from div_210_step [OF this] have rr: "r = Suc r'"
      using Suc.prems(2) by (simp add: r'_def f' algebra_simps)
    then have le: "r' \<le> fuel" using Suc.prems(3) by simp
    from Suc.IH [OF pl r'_def le]
    have o: "occupied_buffers fuel FRAMES_PER_BUFFER v' = Some r'"
      and e: "\<exists>w. callbacks r' FRAMES_PER_BUFFER v' = Some w \<and> idle w \<and> voice_ok w \<and>
            rbuf w = rbuf v' \<and> finished w = finished v' \<and> table w = table v' \<and>
            curr_note w = curr_note v'"
      and a: "\<forall>j<r'. \<exists>w. callbacks j FRAMES_PER_BUFFER v' = Some w \<and> \<not> idle w \<and>
            curr_note w = curr_note v'"
      by blast+
    have ni: "frames_played v' \<noteq> - 1" using f' p by simp
    have 1: "occupied_buffers (Suc fuel) FRAMES_PER_BUFFER v = Some r"
      using c ni o rr by simp
    have 2: "\<exists>w. callbacks r FRAMES_PER_BUFFER v = Some w \<and> idle w \<and> voice_ok w \<and>
            rbuf w = rbuf v \<and> finished w = finished v \<and> table w = table v \<and>
            curr_note w = curr_note v"
      using e c same rr by simp
    have 3: "\<exists>w. callbacks j FRAMES_PER_BUFFER v = Some w \<and> \<not> idle w \<and>
            curr_note w = curr_note v" if "j < r" for j
    proof (cases j)
      case 0
      then show ?thesis using playing_not_idle [OF Suc.prems(1)] by simp
    next
      case (Suc k)
      then have "k < r'" using that rr by simp
      then show ?thesis using a c same Suc by simp
    qed
    show ?thesis using 1 2 3 by blast
  qed
qed

lemma event_buffers_small:
  assumes "event_frames d \<le> 210"
  shows "event_buffers d = 1"
proof -
  have "(event_frames d + 209) div 210 \<le> 1" using assms by simp
  then show ?thesis by (simp add: event_buffers_def FRAMES_PER_BUFFER_def)
qed

lemma event_buffers_large:
  assumes "210 < event_frames d"
  shows "event_buffers d = Suc (Suc (nat ((int (event_frames d) - 210 - 1) div 210)))"
proof -
  define n where "n = event_frames d"
  have "(n + 209) div 210 = ((n - 211) + 2 * 210) div 210" using assms by (simp add: n_def)
  also have "\<dots> = (n - 211) div 210 + 2" by (simp only: div_mult_self1)
  finally have e: "(n + 209) div 210 = (n - 211) div 210 + 2" .
  have "int ((n - 211) div 210) = (int n - 210 - 1) div 210"
    using assms by (simp add: n_def zdiv_int)
  then have "nat ((int n - 210 - 1) div 210) = (n - 211) div 210" by simp
  moreover have "(event_frames d + FRAMES_PER_BUFFER - 1) div FRAMES_PER_BUFFER = (n + 209) div 210"
    by (simp add: FRAMES_PER_BUFFER_def n_def)
  ultimately show ?thesis
    unfolding event_buffers_def n_def [symmetric] using e by simp
qed

lemma run_event:
  assumes "idle v" "voice_ok v" "rbuf v = e # q" "note_ok e" "event_buffers (ms e) \<le> fuel"
  shows "occupied_buffers fuel FRAMES_PER_BUFFER v = Some (event_buffers (ms e)) \<and>
     (\<exists>v'. callbacks (event_buffers (ms e)) FRAMES_PER_BUFFER v = Some v' \<and> idle v' \<and>
            voice_ok v' \<and> rbuf v' = q \<and> finished v' = finished v \<and> table v' = table v \<and>
            curr_note v' = e) \<and>
     (\<forall>j. 0 < j \<and> j < event_buffers (ms e) \<longrightarrow>
        (\<exists>w. callbacks j FRAMES_PER_BUFFER v = Some w \<and> \<not> idle w \<and> curr_note w = e))"
proof -
  from voice_callback_start [OF assms(1-4)] obtain v'
    where c: "voice_callback FRAMES_PER_BUFFER v = Some v'" and ok: "voice_ok v'"
      and same: "rbuf v' = q" "curr_note v' = e" "finished v' = finished v" "table v' = table v"
      and fp: "if event_frames (ms e) \<le> 210 then frames_played v' = - 1 \<and> num_frames v' = 0
               else frames_played v' = 210 \<and> num_frames v' = event_frames (ms e)"
    by blast
  obtain fuel' where fuel: "fuel = Suc fuel'"
    using assms(5) by (cases fuel) (simp_all add: event_buffers_def)
  show ?thesis
  proof (cases "event_frames (ms e) \<le> 210")
    case True
    then have i: "frames_played v' = - 1" using fp by simp
    show ?thesis
      unfolding event_buffers_small [OF True] fuel using c i ok same by (auto simp: idle_def)
  next
    case False
    then have f': "frames_played v' = 210" "num_frames v' = event_frames (ms e)"
      using fp by simp_all
    have pl: "playing v'"
      using False ok same f' assms(4) by (simp add: playing_def)
    define r where "r = Suc (nat ((int (num_frames v') - frames_played v' - 1) div 210))"
    have eb: "event_buffers (ms e) = Suc r"
      using False event_buffers_large [of "ms e"] by (simp add: r_def f')
    then have le: "r \<le> fuel'" using assms(5) fuel by simp
    from run_playing [OF pl r_def le]
    have o: "occupied_buffers fuel' FRAMES_PER_BUFFER v' = Some r"
      and ex: "\<exists>w. callbacks r FRAMES_PER_BUFFER v' = Some w \<and> idle w \<and> voice_ok w \<and>
            rbuf w = rbuf v' \<and> finished w = finished v' \<and> table w = table v' \<and>
            curr_note w = curr_note v'"
      and a: "\<forall>j<r. \<exists>w. callbacks j FRAMES_PER_BUFFER v' = Some w \<and> \<not> idle w \<and>
            curr_note w = curr_note v'"
      by blast+
    have ni: "frames_played v' \<noteq> - 1" using f' by simp
    have 1: "occupied_buffers fuel FRAMES_PER_BUFFER v = Some (event_buffers (ms e))"
      unfolding fuel eb using c ni o by simp
    have 2: "\<exists>w. callbacks (event_buffers (ms e)) FRAMES_PER_BUFFER v = Some w \<and> idle w \<and>
            voice_ok w \<and> rbuf w = q \<and> finished w = finished v \<and> table w = table v \<and>
            curr_note w = e"
      unfolding eb using ex c same by simp
    have 3: "\<exists>w. callbacks j FRAMES_PER_BUFFER v = Some w \<and> \<not> idle w \<and> curr_note w = e"
      if jj: "0 < j \<and> j < event_buffers (ms e)" for j
    proof -
      obtain k where k: "j = Suc k" using jj by (cases j) simp_all
      then have "k < r" using jj eb by simp
      then show ?thesis using a c same k by simp
    qed
    show ?thesis using 1 2 3 by blast
  qed
qed


subsection \<open>The callback on the array and on one voice\<close>

lemma refill_all_voice:
  "refill_all vs = Some vs1 \<Longrightarrow> list_all2 (\<lambda>v v1. refill v = Some v1) vs vs1"
  by (induction vs arbitrary: vs1) (auto split: option.splits)

lemma refill_all_total:
  "list_all2 (\<lambda>v v1. refill v = Some v1) vs vs1 \<Longrightarrow> refill_all vs = Some vs1"
  by (induction vs vs1 rule: list_all2_induct) auto

lemma render_voices_voice:
  "render_voices i fpb cf vs = Some (cf', vs') \<Longrightarrow>
     list_all2 (\<lambda>v v'. \<exists>tf. getNextFrame (set_vol i fpb v) = Some (tf, v')) vs vs'"
proof (induction vs arbitrary: cf vs')
  case Nil
  then show ?case by simp
next
  case (Cons v vs)
  then show ?case by (auto split: option.splits)
qed

lemma render_voices_total:
  "list_all2 (\<lambda>v v'. \<exists>tf. getNextFrame (set_vol i fpb v) = Some (tf, v')) vs vs' \<Longrightarrow>
     \<exists>cf'. render_voices i fpb cf vs = Some (cf', vs')"
proof (induction vs arbitrary: cf vs')
  case Nil
  then show ?case by simp
next
  case (Cons v vs)
  then obtain w ws where vs': "vs' = w # ws" by (cases vs') auto
  from Cons.prems obtain tf where g: "getNextFrame (set_vol i fpb v) = Some (tf, w)"
    and r: "list_all2 (\<lambda>v v'. \<exists>tf. getNextFrame (set_vol i fpb v) = Some (tf, v')) vs ws"
    by (auto simp: vs')
  from Cons.IH [OF r] obtain cf' where
    "render_voices i fpb
       \<lparr>left = left cf + left tf / real NUM_OSCILLATORS,
        right = right cf + right tf / real NUM_OSCILLATORS\<rparr> vs = Some (cf', ws)"
    by blast
  then show ?case using g by (simp add: vs')
qed

lemma render_frames_voice:
  "render_frames i fpb vs = Some (buf, vs') \<Longrightarrow>
     length buf = fpb - i \<and> list_all2 (\<lambda>v v'. voice_frames i fpb v = Some v') vs vs'"
proof (induction i fpb vs arbitrary: buf vs' rule: render_frames.induct)
  case (1 i fpb vs)
  show ?case
  proof (cases "i < fpb")
    case False
    then have "vs' = vs" "buf = []"
      using "1.prems" by (simp_all add: render_frames.simps [of i fpb vs])
    then show ?thesis
      using False by (simp add: voice_frames.simps [of i fpb] list_all2_conv_all_nth)
  next
    case True
    then obtain cf vs1 buf1 where
      rv: "render_voices i fpb \<lparr>left = 0, right = 0\<rparr> vs = Some (cf, vs1)" and
      rf: "render_frames (i + 1) fpb vs1 = Some (buf1, vs')" and b: "buf = cf # buf1"
      using "1.prems" by (auto simp: render_frames.simps [of i fpb vs] split: option.splits)
    from "1.IH" [OF True rv refl rf]
    have len: "length buf1 = fpb - (i + 1)"
      and a2: "list_all2 (\<lambda>v v'. voice_frames (i + 1) fpb v = Some v') vs1 vs'"
      by simp_all
    have a1: "list_all2 (\<lambda>v v'. \<exists>tf. getNextFrame (set_vol i fpb v) = Some (tf, v')) vs vs1"
      using render_voices_voice [OF rv] .
    have "list_all2 (\<lambda>v v'. voice_frames i fpb v = Some v') vs vs'"
      unfolding list_all2_conv_all_nth
    proof (intro conjI allI impI)
      show "length vs = length vs'"
        using a1 a2 by (simp add: list_all2_conv_all_nth)
    next
      fix j assume j: "j < length vs"
      then obtain tf where "getNextFrame (set_vol i fpb (vs ! j)) = Some (tf, vs1 ! j)"
        using a1 by (auto simp: list_all2_conv_all_nth)
      moreover have "voice_frames (i + 1) fpb (vs1 ! j) = Some (vs' ! j)"
        using a1 a2 j by (auto simp: list_all2_conv_all_nth)
      ultimately show "voice_frames i fpb (vs ! j) = Some (vs' ! j)"
        using True by (simp add: voice_frames.simps [of i fpb "vs ! j"])
    qed
    then show ?thesis using len b True by simp
  qed
qed

lemma render_frames_total:
  "list_all2 (\<lambda>v v'. voice_frames i fpb v = Some v') vs vs' \<Longrightarrow>
     \<exists>buf. render_frames i fpb vs = Some (buf, vs')"
proof (induction i fpb vs arbitrary: vs' rule: render_frames.induct)
  case (1 i fpb vs)
  show ?case
  proof (cases "i < fpb")
    case False
    then have "\<forall>j < length vs. vs ! j = vs' ! j" and "length vs = length vs'"
      using "1.prems" by (auto simp: voice_frames.simps [of i fpb] list_all2_conv_all_nth)
    then have "vs' = vs" by (simp add: nth_equalityI)
    then show ?thesis using False by (simp add: render_frames.simps [of i fpb vs])
  next
    case True
    define vs1 where "vs1 = map (\<lambda>v. snd (the (getNextFrame (set_vol i fpb v)))) vs"
    have len: "length vs = length vs'" using "1.prems" by (simp add: list_all2_conv_all_nth)
    have step: "\<exists>tf. getNextFrame (set_vol i fpb (vs ! j)) = Some (tf, vs1 ! j) \<and>
                  voice_frames (i + 1) fpb (vs1 ! j) = Some (vs' ! j)" if "j < length vs" for j
    proof -
      have "voice_frames i fpb (vs ! j) = Some (vs' ! j)"
        using "1.prems" that by (simp add: list_all2_conv_all_nth)
      then show ?thesis
        using True that
        by (auto simp: voice_frames.simps [of i fpb "vs ! j"] vs1_def split: option.splits)
    qed
    have a1: "list_all2 (\<lambda>v v'. \<exists>tf. getNextFrame (set_vol i fpb v) = Some (tf, v')) vs vs1"
      unfolding list_all2_conv_all_nth using step by (auto simp: vs1_def)
    have a2: "list_all2 (\<lambda>v v'. voice_frames (i + 1) fpb v = Some v') vs1 vs'"
      unfolding list_all2_conv_all_nth using step len by (auto simp: vs1_def)
    from render_voices_total [OF a1] obtain cf
      where rv: "render_voices i fpb \<lparr>left = 0, right = 0\<rparr> vs = Some (cf, vs1)" by blast
    from "1.IH" [OF True rv refl a2] obtain buf1
      where "render_frames (i + 1) fpb vs1 = Some (buf1, vs')" by blast
    then show ?thesis using True rv by (simp add: render_frames.simps [of i fpb vs])
  qed
qed

lemma paCallback_voice:
  assumes "paCallback fpb vs = Some (out, vs')"
  shows "length vs' = length vs \<and> length out = 2 * fpb \<and>
         (\<forall>j < length vs. voice_callback fpb (vs ! j) = Some (vs' ! j))"
proof -
  from assms obtain vs1 buf vs2 where
    r: "refill_all vs = Some vs1" and f: "render_frames 0 fpb vs1 = Some (buf, vs2)" and
    o: "out = interleave buf" and b: "vs' = map (bookkeep fpb) vs2"
    by (auto simp: paCallback_def split: option.splits)
  have a1: "list_all2 (\<lambda>v v1. refill v = Some v1) vs vs1"
    using r by (rule refill_all_voice)
  have a2: "list_all2 (\<lambda>v v'. voice_frames 0 fpb v = Some v') vs1 vs2" and lb: "length buf = fpb"
    using render_frames_voice [OF f] by simp_all
  have l: "length vs1 = length vs" "length vs2 = length vs"
    using a1 a2 by (simp_all add: list_all2_conv_all_nth)
  have "length out = 2 * fpb"
    unfolding o interleave_def using lb by (induction buf arbitrary: fpb) auto
  moreover have "voice_callback fpb (vs ! j) = Some (vs' ! j)" if "j < length vs" for j
    using a1 a2 l that by (simp add: voice_callback_def b list_all2_conv_all_nth)
  ultimately show ?thesis using l by (simp add: b)
qed

lemma paCallback_total:
  assumes "\<forall>v \<in> set vs. voice_callback fpb v \<noteq> None"
  shows "\<exists>out vs'. paCallback fpb vs = Some (out, vs')"
proof -
  define vs1 where "vs1 = map (\<lambda>v. the (refill v)) vs"
  define vs2 where "vs2 = map (\<lambda>v. the (voice_frames 0 fpb v)) vs1"
  have step: "refill v = Some (the (refill v)) \<and>
              voice_frames 0 fpb (the (refill v)) = Some (the (voice_frames 0 fpb (the (refill v))))"
    if "v \<in> set vs" for v
  proof -
    have n: "voice_callback fpb v \<noteq> None" using assms that by simp
    then obtain v1 where r: "refill v = Some v1"
      by (auto simp: voice_callback_def split: option.splits)
    then obtain v2 where "voice_frames 0 fpb v1 = Some v2"
      using n by (auto simp: voice_callback_def split: option.splits)
    then show ?thesis using r by simp
  qed
  have a1: "list_all2 (\<lambda>v v1. refill v = Some v1) vs vs1"
    unfolding list_all2_conv_all_nth vs1_def using step by simp
  have a2: "list_all2 (\<lambda>v v'. voice_frames 0 fpb v = Some v') vs1 vs2"
    unfolding list_all2_conv_all_nth vs2_def vs1_def using step by simp
  from render_frames_total [OF a2] obtain buf
    where "render_frames 0 fpb vs1 = Some (buf, vs2)" by blast
  moreover have "refill_all vs = Some vs1" using a1 by (rule refill_all_total)
  ultimately show ?thesis by (simp add: paCallback_def)
qed

subsection \<open>The initial state\<close>

lemma initOscillators_eq:
  "initOscillators T =
     [\<lparr>rbuf = [], table = sine T, vol = 0, left_phase = 0, right_phase = 0,
       frames_played = - 1, num_frames = ulong_of_int (- 1),
       curr_note = \<lparr>type = 0, ms = 0, hz = 0\<rparr>, finished = 0\<rparr>,
      \<lparr>rbuf = [], table = saw T, vol = 0, left_phase = 0, right_phase = 0,
       frames_played = - 1, num_frames = ulong_of_int (- 1),
       curr_note = \<lparr>type = 0, ms = 0, hz = 0\<rparr>, finished = 0\<rparr>]"
proof -
  have u: "[0..<2::nat] = [0, 1]" by (simp add: upt_rec [of 0] upt_rec [of "Suc 0"])
  show ?thesis by (simp add: initOscillators_def NUM_OSCILLATORS_def Let_def u)
qed

lemma length_initTables:
  "length (sine (initTables zero_tables)) = TABLE_SIZE"
  "length (saw (initTables zero_tables)) = TABLE_SIZE"
  by (simp_all add: initTables_sine initTables_saw length_fill_table zero_tables_def)

lemma restOsc_init:
  assumes "dur < 2 ^ 31"
  shows "restOsc 0 dur (initOscillators T) ! 0 =
     \<lparr>rbuf = [\<lparr>type = REST, ms = int dur, hz = 0\<rparr>], table = sine T, vol = 0, left_phase = 0,
      right_phase = 0, frames_played = - 1, num_frames = ulong_of_int (- 1),
      curr_note = \<lparr>type = 0, ms = 0, hz = 0\<rparr>, finished = 0\<rparr>"
proof -
  have "int dur mod 2 ^ 32 = int dur" using assms by simp
  moreover have "int dur < 2 ^ 31" using assms by simp
  ultimately have "int_of_ulong dur = int dur"
    unfolding int_of_ulong_def Let_def by simp
  then show ?thesis
    by (simp add: restOsc_def initOscillators_eq NUM_OSCILLATORS_def write_rbuf_def
        RBUF_CAPACITY_def)
qed

subsection \<open>The semaphore\<close>







subsection \<open>Invariants of the reachable states\<close>

lemma ulong_of_double_bound:
  assumes "m < 2 ^ 31" and "ulong_of_double (real_of_int m / 1000 * real SAMPLE_RATE) = Some n"
  shows "n < 2 ^ 37"
proof -
  define x where "x = real_of_int m / 1000 * real SAMPLE_RATE"
  have n: "n = nat (c_trunc x)"
    using assms(2) unfolding x_def [symmetric]
    by (auto simp: ulong_of_double_def Let_def split: if_splits)
  show ?thesis
  proof (cases "0 \<le> x")
    case True
    have "\<lfloor>x\<rfloor> = (m * 441) div 10" unfolding x_def by (rule floor_frames_product)
    moreover have "(m * 441) div 10 < 2 ^ 37" using assms(1) by simp
    ultimately show ?thesis using True by (simp add: n c_trunc_def)
  next
    case False
    then have "\<lceil>x\<rceil> \<le> 0" by (simp add: ceiling_le_iff)
    then show ?thesis using False by (simp add: n c_trunc_def)
  qed
qed

lemma ulong_of_double_bound_nf:
  assumes "m < 2 ^ 31" and "ulong_of_double (real_of_int m * real SAMPLE_RATE / 1000) = Some n"
  shows "n < 2 ^ 37"
  using ulong_of_double_bound [OF assms(1), of n] assms(2) by simp

lemma refill_rendering:
  assumes "ms_bounded v" and "counters_ok v" and "refill v = Some v1"
  shows "rendering v1 \<and> ms_bounded v1"
proof (cases "idle v")
  case False
  then have "refill v = Some v" by (simp add: refill_def idle_def)
  then show ?thesis using assms False by (simp add: counters_ok_def)
next
  case True
  show ?thesis
  proof (cases "rbuf v")
    case Nil
    then have "v1 = v\<lparr>curr_note := \<lparr>type = WAITING, ms = 0, hz = 0\<rparr>, frames_played := 0,
                       num_frames := 0\<rparr>"
      using assms(3) True
      by (simp add: refill_def idle_def Let_def ulong_of_double_def c_trunc_def note_type_defs)
    then show ?thesis using assms(1) by (simp add: rendering_def ms_bounded_def)
  next
    case (Cons e q)
    have me: "ms e < 2 ^ 31" and mq: "list_all (\<lambda>e. ms e < 2 ^ 31) q"
      using assms(1) Cons by (simp_all add: ms_bounded_def)
    show ?thesis
    proof (cases "type e = END")
      case e: True
      then have "v1 = v\<lparr>rbuf := q, finished := finished v + 1,
                         curr_note := \<lparr>type = WAITING, ms = 0, hz = 0\<rparr>, frames_played := 0,
                         num_frames := 0\<rparr>"
        using assms(3) True Cons
        by (simp add: refill_def idle_def Let_def ulong_of_double_def c_trunc_def)
      then show ?thesis using mq by (simp add: rendering_def ms_bounded_def)
    next
      case e: False
      then obtain n where n: "ulong_of_double (real_of_int (ms e) * real SAMPLE_RATE / 1000) = Some n"
        and v1: "v1 = v\<lparr>rbuf := q, curr_note := e, frames_played := 0, num_frames := n\<rparr>"
        using assms(3) True Cons
        by (auto simp: refill_def idle_def Let_def split: option.splits)
      have "n < 2 ^ 37" using ulong_of_double_bound_nf [OF me n] .
      then show ?thesis using mq by (simp add: v1 rendering_def ms_bounded_def)
    qed
  qed
qed

lemma advance_cases:
  assumes "0 \<le> p" "p < 2 ^ 31"
  shows "(p + 210 < 2 ^ 31 \<and>
          int_of_ulong (ulong_add (ulong_of_int p) FRAMES_PER_BUFFER) = p + 210) \<or>
         (int_of_ulong (ulong_add (ulong_of_int p) FRAMES_PER_BUFFER) < 0 \<and>
          ulong_of_int (int_of_ulong (ulong_add (ulong_of_int p) FRAMES_PER_BUFFER)) \<ge> 2 ^ 63)"
proof -
  have u: "ulong_of_int p = nat p" using assms by (simp add: ulong_of_int_def)
  have s: "ulong_add (nat p) FRAMES_PER_BUFFER = nat p + 210"
    using assms by (simp add: ulong_add_def FRAMES_PER_BUFFER_def)
  have m: "int (nat p + 210) mod 2 ^ 32 = p + 210" using assms by simp
  show ?thesis
  proof (cases "p + 210 < 2 ^ 31")
    case True
    then have "int_of_ulong (nat p + 210) = p + 210"
      unfolding int_of_ulong_def Let_def m by simp
    then show ?thesis using True by (simp add: u s)
  next
    case False
    then have i: "int_of_ulong (nat p + 210) = p + 210 - 2 ^ 32"
      unfolding int_of_ulong_def Let_def m by simp
    have "(p + 210 - 2 ^ 32) mod 2 ^ 64 = p + 210 - 2 ^ 32 + 2 ^ 64"
      using assms False by (intro mod_neg_wrap) auto
    then have "ulong_of_int (p + 210 - 2 ^ 32) \<ge> 2 ^ 63"
      using assms False by (simp add: ulong_of_int_def)
    then show ?thesis using assms by (simp add: u s i)
  qed
qed

lemma bookkeep_counters:
  assumes "rendering v"
  shows "counters_ok (bookkeep FRAMES_PER_BUFFER v)"
proof (cases "type (curr_note v) = WAITING")
  case True
  then show ?thesis
    using assms by (simp add: bookkeep_def Let_def counters_ok_def idle_def rendering_def)
next
  case False
  define p' where "p' = int_of_ulong (ulong_add (ulong_of_int (frames_played v)) FRAMES_PER_BUFFER)"
  have b: "bookkeep FRAMES_PER_BUFFER v =
             (if ulong_of_int p' \<ge> num_frames v then v\<lparr>frames_played := - 1, num_frames := 0\<rparr>
              else v\<lparr>frames_played := p'\<rparr>)"
    using False by (simp add: bookkeep_def Let_def p'_def)
  have p: "0 \<le> frames_played v" "frames_played v < 2 ^ 31" and n: "num_frames v < 2 ^ 37"
    using assms by (auto simp: rendering_def)
  from advance_cases [OF p]
  show ?thesis
  proof
    assume a: "frames_played v + 210 < 2 ^ 31 \<and>
          int_of_ulong (ulong_add (ulong_of_int (frames_played v)) FRAMES_PER_BUFFER)
            = frames_played v + 210"
    then have p': "p' = frames_played v + 210" by (simp add: p'_def)
    then have "ulong_of_int p' = nat (frames_played v + 210)"
      using p a by (simp add: ulong_of_int_def)
    then show ?thesis
      unfolding b using p a n p'
      by (auto simp: counters_ok_def idle_def rendering_def FRAMES_PER_BUFFER_def)
  next
    assume a: "int_of_ulong (ulong_add (ulong_of_int (frames_played v)) FRAMES_PER_BUFFER) < 0 \<and>
          ulong_of_int (int_of_ulong (ulong_add (ulong_of_int (frames_played v))
            FRAMES_PER_BUFFER)) \<ge> 2 ^ 63"
    then have "ulong_of_int p' \<ge> num_frames v" using n by (simp add: p'_def)
    then show ?thesis unfolding b by (simp add: counters_ok_def idle_def)
  qed
qed

lemma same_event_rendering: "same_event v w \<Longrightarrow> rendering w = rendering v"
  by (simp add: same_event_def rendering_def)

lemma same_event_ms_bounded: "same_event v w \<Longrightarrow> ms_bounded w = ms_bounded v"
  by (simp add: same_event_def ms_bounded_def)

lemma bookkeep_ms_bounded: "ms_bounded (bookkeep fpb v) = ms_bounded v"
  by (simp add: bookkeep_def Let_def ms_bounded_def)

lemma voice_callback_inv:
  assumes "ms_bounded v" and "counters_ok v" and "voice_callback FRAMES_PER_BUFFER v = Some v'"
  shows "ms_bounded v' \<and> counters_ok v'"
proof -
  from assms(3) obtain v1 v2 where r: "refill v = Some v1"
    and f: "voice_frames 0 FRAMES_PER_BUFFER v1 = Some v2"
    and b: "v' = bookkeep FRAMES_PER_BUFFER v2"
    by (auto simp: voice_callback_def split: option.splits)
  have 1: "rendering v1" "ms_bounded v1" using refill_rendering [OF assms(1,2) r] by simp_all
  have se: "same_event v1 v2" using voice_frames_same [OF f] .
  have 2: "rendering v2" "ms_bounded v2"
    using 1 same_event_rendering [OF se] same_event_ms_bounded [OF se] by simp_all
  show ?thesis
    unfolding b using bookkeep_counters [OF 2(1)] 2(2) by (simp add: bookkeep_ms_bounded)
qed

lemma int_of_ulong_bound: "int_of_ulong n < 2 ^ 31"
proof -
  define m where "m = int n mod 2 ^ 32"
  have "m < 2 ^ 32" by (simp add: m_def)
  then have "(if m < 2 ^ 31 then m else m - 2 ^ 32) < 2 ^ 31" by simp
  then show ?thesis unfolding int_of_ulong_def Let_def m_def [symmetric] .
qed

lemma write_rbuf_inv:
  assumes "ms_bounded v \<and> counters_ok v" and "ms e < 2 ^ 31"
  shows "ms_bounded (write_rbuf e v) \<and> counters_ok (write_rbuf e v)"
  using assms
  by (simp add: write_rbuf_def ms_bounded_def counters_ok_def idle_def rendering_def)

lemma enqueue_inv:
  assumes "\<forall>v \<in> set vs. ms_bounded v \<and> counters_ok v" and "ms e < 2 ^ 31"
  shows "\<forall>v \<in> set (vs[j := write_rbuf e (vs ! j)]). ms_bounded v \<and> counters_ok v"
proof (cases "j < length vs")
  case True
  then have "ms_bounded (write_rbuf e (vs ! j)) \<and> counters_ok (write_rbuf e (vs ! j))"
    using assms by (intro write_rbuf_inv) simp_all
  then show ?thesis
    using assms(1) set_update_subset_insert [of vs j "write_rbuf e (vs ! j)"] by auto
next
  case False
  then show ?thesis using assms(1) by (simp add: list_update_beyond not_less)
qed

lemma reachable_inv:
  "reachable vs \<Longrightarrow> \<forall>v \<in> set vs. ms_bounded v \<and> counters_ok v"
proof (induction rule: reachable.induct)
  case reach_init
  show ?case
    by (simp add: initOscillators_eq ms_bounded_def counters_ok_def idle_def)
next
  case (reach_play vs dur osc_id freq)
  have m: "ms \<lparr>type = NOTE, ms = int_of_ulong dur, hz = freq\<rparr> < 2 ^ 31"
    using int_of_ulong_bound [of dur] by simp
  show ?case
    using enqueue_inv [OF reach_play.IH m, of osc_id] reach_play.IH by (simp add: playOsc_def)
next
  case (reach_rest vs dur osc_id)
  have m: "ms \<lparr>type = REST, ms = int_of_ulong dur, hz = 0\<rparr> < 2 ^ 31"
    using int_of_ulong_bound [of dur] by simp
  show ?case
    using enqueue_inv [OF reach_rest.IH m, of osc_id] reach_rest.IH by (simp add: restOsc_def)
next
  case (reach_end vs osc_id)
  have m: "ms \<lparr>type = END, ms = 0, hz = 0\<rparr> < 2 ^ 31"
    by simp
  show ?case
    using enqueue_inv [OF reach_end.IH m, of osc_id] reach_end.IH by (simp add: endOsc_def)
next
  case (reach_callback vs buf vs')
  from paCallback_voice [OF reach_callback.hyps(2)]
  have l: "length vs' = length vs"
    and c: "\<forall>j<length vs. voice_callback FRAMES_PER_BUFFER (vs ! j) = Some (vs' ! j)"
    by simp_all
  show ?case
  proof
    fix w assume "w \<in> set vs'"
    then obtain j where j: "j < length vs'" "w = vs' ! j" by (auto simp: in_set_conv_nth)
    then have "voice_callback FRAMES_PER_BUFFER (vs ! j) = Some w" using c l by simp
    moreover have "ms_bounded (vs ! j) \<and> counters_ok (vs ! j)"
      using reach_callback.IH j l by simp
    ultimately show "ms_bounded w \<and> counters_ok w" using voice_callback_inv by blast
  qed
qed

lemma set_vol_spec:
  assumes "rendering w"
  shows "vol (set_vol i FRAMES_PER_BUFFER w) =
           spec_volume i FRAMES_PER_BUFFER (frames_played w) (int (num_frames w))"
proof (cases "frames_played w = 0")
  case True
  then show ?thesis by (simp add: set_vol_def spec_volume_def)
next
  case False
  then have p: "210 \<le> frames_played w" "frames_played w < int (num_frames w)"
    "frames_played w < 2 ^ 31" and n: "num_frames w < 2 ^ 37"
    using assms by (simp_all add: rendering_def FRAMES_PER_BUFFER_def)
  have u: "ulong_of_int (frames_played w) = nat (frames_played w)"
    using p by (simp add: ulong_of_int_def)
  have "(int (num_frames w) - 210) mod 2 ^ 64 = int (num_frames w) - 210"
    using p n by (intro mod_pos_pos_trivial) auto
  then have s: "ulong_sub (num_frames w) 210 = nat (int (num_frames w) - 210)"
    by (simp add: ulong_sub_def)
  have "(nat (int (num_frames w) - 210) \<le> nat (frames_played w))
          = (int (num_frames w) - 210 \<le> frames_played w)"
    using p by auto
  then show ?thesis
    using False by (simp add: set_vol_def spec_volume_def u s FRAMES_PER_BUFFER_def)
qed

subsection \<open>Equal phases\<close>

lemma getNextFrame_stereo:
  assumes "left_phase v = right_phase v" and "getNextFrame v = Some (f, v')"
  shows "left f = right f \<and> left_phase v' = right_phase v'"
  using assms by (auto simp: getNextFrame_def split: if_splits option.splits)

lemma set_vol_phases:
  "left_phase (set_vol i fpb v) = left_phase v \<and> right_phase (set_vol i fpb v) = right_phase v"
  by (simp add: set_vol_def)

lemma render_voices_stereo:
  "\<forall>v \<in> set vs. left_phase v = right_phase v \<Longrightarrow> left cf = right cf \<Longrightarrow>
   render_voices i fpb cf vs = Some (cf', vs') \<Longrightarrow>
     left cf' = right cf' \<and> (\<forall>v \<in> set vs'. left_phase v = right_phase v)"
proof (induction vs arbitrary: cf cf' vs')
  case Nil
  then show ?case by simp
next
  case (Cons v vs)
  from Cons.prems(3) obtain tf v1 cf1 vs1 where
    g: "getNextFrame (set_vol i fpb v) = Some (tf, v1)" and
    r: "render_voices i fpb
          \<lparr>left = left cf + left tf / real NUM_OSCILLATORS,
           right = right cf + right tf / real NUM_OSCILLATORS\<rparr> vs = Some (cf1, vs1)" and
    e: "cf' = cf1" "vs' = v1 # vs1"
    by (auto split: option.splits)
  have "left_phase (set_vol i fpb v) = right_phase (set_vol i fpb v)"
    using Cons.prems(1) by (simp add: set_vol_phases)
  from getNextFrame_stereo [OF this g]
  have s: "left tf = right tf" "left_phase v1 = right_phase v1" by simp_all
  have "left cf1 = right cf1 \<and> (\<forall>v \<in> set vs1. left_phase v = right_phase v)"
    using Cons.prems(1,2) s(1) by (intro Cons.IH [OF _ _ r]) simp_all
  then show ?case using s(2) e by simp
qed

lemma render_frames_stereo:
  "\<forall>v \<in> set vs. left_phase v = right_phase v \<Longrightarrow>
   render_frames i fpb vs = Some (buf, vs') \<Longrightarrow>
     (\<forall>f \<in> set buf. left f = right f) \<and> (\<forall>v \<in> set vs'. left_phase v = right_phase v)"
proof (induction i fpb vs arbitrary: buf vs' rule: render_frames.induct)
  case (1 i fpb vs)
  show ?case
  proof (cases "i < fpb")
    case False
    then show ?thesis using "1.prems" by (simp add: render_frames.simps [of i fpb vs])
  next
    case True
    then obtain cf vs1 buf1 where
      rv: "render_voices i fpb \<lparr>left = 0, right = 0\<rparr> vs = Some (cf, vs1)" and
      rf: "render_frames (i + 1) fpb vs1 = Some (buf1, vs')" and b: "buf = cf # buf1"
      using "1.prems"(2) by (auto simp: render_frames.simps [of i fpb vs] split: option.splits)
    have s: "left cf = right cf \<and> (\<forall>v \<in> set vs1. left_phase v = right_phase v)"
      using "1.prems"(1) by (intro render_voices_stereo [OF _ _ rv]) simp_all
    then have "\<forall>v \<in> set vs1. left_phase v = right_phase v" by simp
    from "1.IH" [OF True rv refl this rf] s show ?thesis by (simp add: b)
  qed
qed

lemma refill_phases:
  "refill v = Some v1 \<Longrightarrow> left_phase v1 = left_phase v \<and> right_phase v1 = right_phase v"
  by (auto simp: refill_def Let_def split: if_splits list.splits option.splits)

lemma bookkeep_phases:
  "left_phase (bookkeep fpb v) = left_phase v \<and> right_phase (bookkeep fpb v) = right_phase v"
  by (simp add: bookkeep_def Let_def)

lemma interleave_nth:
  "k < length buf \<Longrightarrow>
     interleave buf ! (2 * k) = left (buf ! k) \<and> interleave buf ! (2 * k + 1) = right (buf ! k)"
proof (induction buf arbitrary: k)
  case Nil
  then show ?case by simp
next
  case (Cons f buf)
  show ?case
  proof (cases k)
    case 0
    then show ?thesis by (simp add: interleave_def)
  next
    case (Suc m)
    then have "m < length buf" using Cons.prems by simp
    from Cons.IH [OF this] show ?thesis
      by (simp add: Suc interleave_def)
  qed
qed

lemma paCallback_stereo:
  assumes "\<forall>v \<in> set vs. left_phase v = right_phase v"
    and "paCallback fpb vs = Some (out, vs')"
  shows "(\<forall>k < fpb. out ! (2 * k) = out ! (2 * k + 1)) \<and>
         (\<forall>v \<in> set vs'. left_phase v = right_phase v)"
proof -
  from assms(2) obtain vs1 buf vs2 where
    r: "refill_all vs = Some vs1" and f: "render_frames 0 fpb vs1 = Some (buf, vs2)" and
    o: "out = interleave buf" and b: "vs' = map (bookkeep fpb) vs2"
    by (auto simp: paCallback_def split: option.splits)
  have a1: "list_all2 (\<lambda>v v1. refill v = Some v1) vs vs1"
    using r by (rule refill_all_voice)
  have p1: "\<forall>v \<in> set vs1. left_phase v = right_phase v"
  proof
    fix w assume "w \<in> set vs1"
    then obtain j where j: "j < length vs1" "w = vs1 ! j" by (auto simp: in_set_conv_nth)
    then have "refill (vs ! j) = Some w" "j < length vs"
      using a1 by (simp_all add: list_all2_conv_all_nth)
    then show "left_phase w = right_phase w"
      using refill_phases [of "vs ! j" w] assms(1) by simp
  qed
  from render_frames_stereo [OF p1 f]
  have sb: "\<forall>f \<in> set buf. left f = right f" and p2: "\<forall>v \<in> set vs2. left_phase v = right_phase v"
    by simp_all
  have lb: "length buf = fpb" using render_frames_voice [OF f] by simp
  have "out ! (2 * k) = out ! (2 * k + 1)" if "k < fpb" for k
    using interleave_nth [of k buf] that lb sb by (simp add: o)
  moreover have "\<forall>v \<in> set vs'. left_phase v = right_phase v"
    using p2 by (simp add: b bookkeep_phases)
  ultimately show ?thesis by blast
qed

lemma enqueue_phases:
  assumes "\<forall>v \<in> set vs. left_phase v = right_phase v"
  shows "\<forall>v \<in> set (vs[j := write_rbuf e (vs ! j)]). left_phase v = right_phase v"
proof (cases "j < length vs")
  case True
  then have "left_phase (write_rbuf e (vs ! j)) = right_phase (write_rbuf e (vs ! j))"
    using assms by (simp add: write_rbuf_def)
  then show ?thesis
    using assms set_update_subset_insert [of vs j "write_rbuf e (vs ! j)"] by auto
next
  case False
  then show ?thesis using assms by (simp add: list_update_beyond not_less)
qed

lemma reachable_phases:
  "reachable vs \<Longrightarrow> \<forall>v \<in> set vs. left_phase v = right_phase v"
proof (induction rule: reachable.induct)
  case reach_init
  show ?case by (simp add: initOscillators_eq)
next
  case (reach_play vs dur osc_id freq)
  show ?case
    using enqueue_phases [OF reach_play.IH, of osc_id] reach_play.IH by (simp add: playOsc_def)
next
  case (reach_rest vs dur osc_id)
  show ?case
    using enqueue_phases [OF reach_rest.IH, of osc_id] reach_rest.IH by (simp add: restOsc_def)
next
  case (reach_end vs osc_id)
  show ?case
    using enqueue_phases [OF reach_end.IH, of osc_id] reach_end.IH by (simp add: endOsc_def)
next
  case (reach_callback vs buf vs')
  from paCallback_stereo [OF reach_callback.IH reach_callback.hyps(2)]
  show ?case by simp
qed

subsection \<open>The volume field\<close>

lemma getNextFrame_ignores_vol:
  "map_option fst (getNextFrame (v\<lparr>vol := a\<rparr>)) = map_option fst (getNextFrame v)"
  by (auto simp: getNextFrame_def split: option.splits)

lemma playOsc_init_1:
  "playOsc 1 500 440 (initOscillators T) =
     [\<lparr>rbuf = [], table = sine T, vol = 0, left_phase = 0, right_phase = 0,
       frames_played = - 1, num_frames = ulong_of_int (- 1),
       curr_note = \<lparr>type = 0, ms = 0, hz = 0\<rparr>, finished = 0\<rparr>,
      \<lparr>rbuf = [\<lparr>type = NOTE, ms = 500, hz = 440\<rparr>], table = saw T, vol = 0, left_phase = 0,
       right_phase = 0, frames_played = - 1, num_frames = ulong_of_int (- 1),
       curr_note = \<lparr>type = 0, ms = 0, hz = 0\<rparr>, finished = 0\<rparr>]"
  by (simp add: playOsc_def initOscillators_eq NUM_OSCILLATORS_def write_rbuf_def
      RBUF_CAPACITY_def int_of_ulong_def)

section \<open>The wavetables after \<open>initTables\<close>\<close>

text \<open>
  Claim C10. After \<open>initTables\<close> the noise table is the sine table, element for
  element: at every index \<open>i\<close> below \<open>TABLE_SIZE\<close> both hold
  \<open>sin (i / TABLE_SIZE * 2 * pi)\<close>. The arrays have \<open>TABLE_SIZE\<close> elements each.
\<close>

theorem noise_table_is_sine:
  assumes "length (sine T) = TABLE_SIZE" and "length (noise T) = TABLE_SIZE"
  shows "noise (initTables T) = sine (initTables T) \<and>
         length (sine (initTables T)) = TABLE_SIZE \<and>
         (\<forall>i < TABLE_SIZE.
            noise (initTables T) ! i = sine (initTables T) ! i \<and>
            sine (initTables T) ! i = sin (real i / real TABLE_SIZE * pi * 2))"
  using assms
  by (simp add: initTables_sine initTables_noise length_fill_table nth_fill_table
      fill_table_eq [of "noise T" "sine T"])

theorem noise_table_is_sine_witness:
  "length (sine zero_tables) = TABLE_SIZE \<and> length (noise zero_tables) = TABLE_SIZE \<and>
   noise (initTables zero_tables) = sine (initTables zero_tables) \<and>
   (0::nat) < TABLE_SIZE \<and>
   noise (initTables zero_tables) ! 0 = sine (initTables zero_tables) ! 0 \<and>
   sine (initTables zero_tables) ! 0 = 0"
proof -
  have a: "length (sine zero_tables) = TABLE_SIZE" "length (noise zero_tables) = TABLE_SIZE"
    by (simp_all add: zero_tables_def)
  have b: "(0::nat) < TABLE_SIZE" by (simp add: TABLE_SIZE_def)
  from noise_table_is_sine [OF a] b a show ?thesis by simp
qed

section \<open>Events with an unknown tag\<close>




section \<open>The length of an event in frames\<close>




section \<open>The phases stay inside the table\<close>

text \<open>
  Claim C5. Let the current event of a voice have a frequency between 0 and 20000 Hz,
  let both phases be in \<open>[0, TABLE_SIZE)\<close> and let the table have \<open>TABLE_SIZE\<close>
  elements. Then any number \<open>n\<close> of calls of \<open>getNextFrame\<close> in a row succeeds, and
  afterwards both phases are in \<open>[0, TABLE_SIZE)\<close> again, so that the cast of each
  phase to \<open>int\<close> is defined and an index inside the table.
\<close>

theorem phases_stay_in_table:
  assumes "0 \<le> hz (curr_note v)" and "hz (curr_note v) \<le> 20000"
    and "0 \<le> left_phase v" and "left_phase v < real TABLE_SIZE"
    and "0 \<le> right_phase v" and "right_phase v < real TABLE_SIZE"
    and "length (table v) = TABLE_SIZE"
  shows "\<exists>fs v'. next_frames n v = Some (fs, v') \<and>
           0 \<le> left_phase v' \<and> left_phase v' < real TABLE_SIZE \<and>
           0 \<le> right_phase v' \<and> right_phase v' < real TABLE_SIZE \<and>
           (\<exists>k. int_of_double (left_phase v') = Some k \<and> 0 \<le> k \<and> k < int (length (table v'))) \<and>
           (\<exists>k. int_of_double (right_phase v') = Some k \<and> 0 \<le> k \<and> k < int (length (table v')))"
proof -
  have ok: "voice_ok v" using assms by (simp add: voice_ok_def phase_ok_def)
  have "hz (curr_note v) \<le> 44100" using assms(2) by simp
  from next_frames_ok [OF ok assms(1) this, of n] obtain fs v'
    where s: "next_frames n v = Some (fs, v')" "voice_ok v'" "same_event v v'" by blast
  have l: "phase_ok (left_phase v')" and r: "phase_ok (right_phase v')"
    and len: "length (table v') = TABLE_SIZE"
    using s(2) by (simp_all add: voice_ok_def)
  show ?thesis
    using s(1) l r len int_of_double_phase [OF l] int_of_double_phase [OF r]
    by (simp add: phase_ok_def)
qed

theorem phases_stay_in_table_witness:
  "\<exists>fs v'. next_frames 3
      \<lparr>rbuf = [], table = sine (initTables zero_tables), vol = 1, left_phase = 0,
       right_phase = 0, frames_played = 0, num_frames = 441,
       curr_note = \<lparr>type = NOTE, ms = 10, hz = 440\<rparr>, finished = 0\<rparr> = Some (fs, v') \<and>
     0 \<le> left_phase v' \<and> left_phase v' < real TABLE_SIZE \<and>
     0 \<le> right_phase v' \<and> right_phase v' < real TABLE_SIZE \<and>
     (\<exists>k. int_of_double (left_phase v') = Some k \<and> 0 \<le> k \<and> k < int (length (table v'))) \<and>
     (\<exists>k. int_of_double (right_phase v') = Some k \<and> 0 \<le> k \<and> k < int (length (table v')))"
proof -
  have len: "length (sine (initTables zero_tables)) = TABLE_SIZE"
    by (simp add: initTables_sine length_fill_table zero_tables_def)
  show ?thesis
    by (rule phases_stay_in_table) (simp_all add: len TABLE_SIZE_def)
qed

section \<open>A rest of no length\<close>

text \<open>
  Claim C8. With \<open>FRAMES_PER_BUFFER = 210\<close>, let a voice without a current note find
  a \<open>REST\<close> of 0 ms at the head of its ring buffer. Then the first loop of the callback
  loads it with \<open>num_frames = 0\<close> and \<open>frames_played = 0\<close>; the frame loop leaves both
  as they are; the last loop advances \<open>frames_played\<close> to \<open>FRAMES_PER_BUFFER\<close>, finds
  it at least \<open>num_frames\<close> and puts the voice back into the state without a current
  note, the rest removed from the ring buffer. So the rest takes exactly one buffer,
  the callback returns, and the next callback reads the next event. The same holds
  for the voice inside the array that \<open>paCallback\<close> works on, whenever \<open>paCallback\<close>
  returns.
\<close>

theorem zero_rest_takes_one_buffer:
  assumes "frames_played v = - 1" and "rbuf v = e # q" and "type e = REST" and "ms e = 0"
  shows "\<exists>v1 v2 v'.
           refill v = Some v1 \<and> curr_note v1 = e \<and> num_frames v1 = 0 \<and> frames_played v1 = 0 \<and>
           voice_frames 0 FRAMES_PER_BUFFER v1 = Some v2 \<and>
           frames_played v2 = 0 \<and> num_frames v2 = 0 \<and>
           int_of_ulong (ulong_add (ulong_of_int (frames_played v2)) FRAMES_PER_BUFFER)
             = int FRAMES_PER_BUFFER \<and>
           ulong_of_int (int FRAMES_PER_BUFFER) \<ge> num_frames v2 \<and>
           voice_callback FRAMES_PER_BUFFER v = Some v' \<and> v' = bookkeep FRAMES_PER_BUFFER v2 \<and>
           frames_played v' = - 1 \<and> num_frames v' = 0 \<and> rbuf v' = q \<and>
           finished v' = finished v \<and>
           occupied_buffers (Suc fuel) FRAMES_PER_BUFFER v = Some 1 \<and>
           (\<forall>vs out vs' j. j < length vs \<and> vs ! j = v \<and>
               paCallback FRAMES_PER_BUFFER vs = Some (out, vs') \<longrightarrow> vs' ! j = v')"
proof -
  define v1 where "v1 = v\<lparr>rbuf := q, curr_note := e, frames_played := 0,
                          num_frames := event_frames (ms e)\<rparr>"
  have ne: "type e \<noteq> END" "type e \<noteq> WAITING" using assms(3) by (simp_all add: note_type_defs)
  have r: "refill v = Some v1"
    unfolding v1_def using assms ne by (intro refill_event) simp_all
  have n1: "num_frames v1 = 0" using assms(4) by (simp add: v1_def event_frames_def)
  have "type (curr_note v1) = REST \<or> type (curr_note v1) = WAITING \<or> type (curr_note v1) = END"
    using assms(3) by (simp add: v1_def)
  from voice_frames_silent [OF this] obtain a
    where f: "voice_frames 0 FRAMES_PER_BUFFER v1 = Some (v1\<lparr>vol := a\<rparr>)" by blast
  define v2 where "v2 = v1\<lparr>vol := a\<rparr>"
  have v2: "frames_played v2 = 0" "num_frames v2 = 0" "type (curr_note v2) \<noteq> WAITING"
    using n1 ne by (simp_all add: v2_def v1_def)
  have adv: "int_of_ulong (ulong_add (ulong_of_int (frames_played v2)) FRAMES_PER_BUFFER)
             = int FRAMES_PER_BUFFER"
    by (simp add: v2 ulong_of_int_def ulong_add_def int_of_ulong_def FRAMES_PER_BUFFER_def)
  have b: "bookkeep FRAMES_PER_BUFFER v2 = v2\<lparr>frames_played := - 1, num_frames := 0\<rparr>"
    using bookkeep_playing [of v2] v2 by simp
  have c: "voice_callback FRAMES_PER_BUFFER v = Some (bookkeep FRAMES_PER_BUFFER v2)"
    by (simp add: voice_callback_def r f v2_def)
  have k1: "curr_note v1 = e" "frames_played v1 = 0" by (simp_all add: v1_def)
  have k2: "voice_frames 0 FRAMES_PER_BUFFER v1 = Some v2" using f by (simp add: v2_def)
  have k3: "ulong_of_int (int FRAMES_PER_BUFFER) \<ge> num_frames v2" by (simp add: v2)
  have k4: "frames_played (bookkeep FRAMES_PER_BUFFER v2) = - 1"
    "num_frames (bookkeep FRAMES_PER_BUFFER v2) = 0"
    "rbuf (bookkeep FRAMES_PER_BUFFER v2) = q"
    "finished (bookkeep FRAMES_PER_BUFFER v2) = finished v"
    unfolding b by (simp_all add: v2_def v1_def)
  have k5: "occupied_buffers (Suc fuel) FRAMES_PER_BUFFER v = Some 1"
    using c k4(1) by simp
  have k6: "\<forall>vs out vs' j. j < length vs \<and> vs ! j = v \<and>
               paCallback FRAMES_PER_BUFFER vs = Some (out, vs') \<longrightarrow>
               vs' ! j = bookkeep FRAMES_PER_BUFFER v2"
  proof (intro allI impI)
    fix vs out vs' j
    assume h: "j < length vs \<and> vs ! j = v \<and> paCallback FRAMES_PER_BUFFER vs = Some (out, vs')"
    then have "voice_callback FRAMES_PER_BUFFER (vs ! j) = Some (vs' ! j)"
      using paCallback_voice [of FRAMES_PER_BUFFER vs out vs'] by blast
    then show "vs' ! j = bookkeep FRAMES_PER_BUFFER v2" using h c by simp
  qed
  show ?thesis
    apply (rule exI [of _ v1], rule exI [of _ v2], rule exI [of _ "bookkeep FRAMES_PER_BUFFER v2"])
    apply (intro conjI)
    apply (fact r k1 n1 k2 v2 adv k3 c refl k4 k5 k6)+
    done
qed

theorem zero_rest_takes_one_buffer_witness:
  "\<exists>v'. voice_callback FRAMES_PER_BUFFER
       \<lparr>rbuf = [\<lparr>type = REST, ms = 0, hz = 0\<rparr>], table = sine (initTables zero_tables),
        vol = 0, left_phase = 0, right_phase = 0, frames_played = - 1,
        num_frames = ulong_of_int (- 1), curr_note = \<lparr>type = 0, ms = 0, hz = 0\<rparr>,
        finished = 0\<rparr> = Some v' \<and>
     frames_played v' = - 1 \<and> num_frames v' = 0 \<and> rbuf v' = [] \<and> finished v' = 0"
proof -
  from zero_rest_takes_one_buffer
    [of "\<lparr>rbuf = [\<lparr>type = REST, ms = 0, hz = 0\<rparr>], table = sine (initTables zero_tables),
          vol = 0, left_phase = 0, right_phase = 0, frames_played = - 1,
          num_frames = ulong_of_int (- 1), curr_note = \<lparr>type = 0, ms = 0, hz = 0\<rparr>,
          finished = 0\<rparr>"
        "\<lparr>type = REST, ms = 0, hz = 0\<rparr>" "[]" 0]
  obtain v' where
    "voice_callback FRAMES_PER_BUFFER
       \<lparr>rbuf = [\<lparr>type = REST, ms = 0, hz = 0\<rparr>], table = sine (initTables zero_tables),
        vol = 0, left_phase = 0, right_phase = 0, frames_played = - 1,
        num_frames = ulong_of_int (- 1), curr_note = \<lparr>type = 0, ms = 0, hz = 0\<rparr>,
        finished = 0\<rparr> = Some v'"
    "frames_played v' = - 1" "num_frames v' = 0" "rbuf v' = []" "finished v' = 0"
    by auto
  then show ?thesis by blast
qed

section \<open>The buffers an event takes\<close>

text \<open>
  Claim C3 says that every event stays in its voice for
  \<open>ceil(ms / 1000 * sample_rate / frames_per_buffer) * frames_per_buffer\<close> samples.
  For a rest of 0 ms, queued by \<open>restOsc(0, 0)\<close> right after the initialisation, the
  formula gives 0 samples, while the voice is taken for one callback, that is for 210
  samples.
\<close>

theorem rendered_duration_counterexample:
  "occupied_buffers 1 FRAMES_PER_BUFFER
     (restOsc 0 0 (initOscillators (initTables zero_tables)) ! 0) = Some 1 \<and>
   1 * int FRAMES_PER_BUFFER = 210 \<and> spec_rendered_samples 0 = 0"
proof -
  have "note_ok \<lparr>type = REST, ms = 0, hz = 0\<rparr>"
    by (simp add: note_ok_def)
  moreover have "voice_ok (restOsc 0 0 (initOscillators (initTables zero_tables)) ! 0)"
    by (simp add: restOsc_init voice_ok_def phase_ok_def length_initTables TABLE_SIZE_def)
  moreover have "idle (restOsc 0 0 (initOscillators (initTables zero_tables)) ! 0)"
    by (simp add: restOsc_init idle_def)
  moreover have "rbuf (restOsc 0 0 (initOscillators (initTables zero_tables)) ! 0)
                 = \<lparr>type = REST, ms = 0, hz = 0\<rparr> # []"
    by (simp add: restOsc_init)
  moreover have "event_buffers 0 = 1"
    by (simp add: event_buffers_def event_frames_def FRAMES_PER_BUFFER_def)
  ultimately have "occupied_buffers 1 FRAMES_PER_BUFFER
     (restOsc 0 0 (initOscillators (initTables zero_tables)) ! 0) = Some 1"
    using run_event [of "restOsc 0 0 (initOscillators (initTables zero_tables)) ! 0"
        "\<lparr>type = REST, ms = 0, hz = 0\<rparr>" "[]" 1]
    by simp
  then show ?thesis
    by (simp add: FRAMES_PER_BUFFER_def spec_rendered_samples_def)
qed

text \<open>
  Claim C3, amended. Let a voice without a current note, with a table of \<open>TABLE_SIZE\<close>
  elements and phases inside it, find at the head of its ring buffer a note or rest
  \<open>e\<close> of \<open>0 \<le> ms \<le> 48695774\<close> milliseconds (its length in frames fits an \<open>int\<close>) and a
  frequency between 0 and 20000 Hz. Then the event stays in the voice for exactly
  \<open>event_buffers (ms e)\<close> callbacks: after so many callbacks the voice is without a current
  note again and the event is gone from the ring buffer, after fewer it still plays
  \<open>e\<close>. In samples this is one buffer when \<open>ms = 0\<close>, and otherwise the specification's
  \<open>ceil(ms / 1000 * sample_rate / frames_per_buffer) * frames_per_buffer\<close>; it is never
  less than the requested \<open>ms / 1000 * sample_rate\<close>.
\<close>

theorem event_occupies_whole_buffers:
  assumes "idle v" and "voice_ok v" and "rbuf v = e # q" and "note_ok e"
    and "event_buffers (ms e) \<le> fuel"
  shows "occupied_buffers fuel FRAMES_PER_BUFFER v = Some (event_buffers (ms e)) \<and>
         (\<exists>v'. callbacks (event_buffers (ms e)) FRAMES_PER_BUFFER v = Some v' \<and> idle v' \<and>
                rbuf v' = q) \<and>
         (\<forall>j. 0 < j \<and> j < event_buffers (ms e) \<longrightarrow>
            (\<exists>w. callbacks j FRAMES_PER_BUFFER v = Some w \<and> \<not> idle w \<and> curr_note w = e)) \<and>
         int (event_buffers (ms e) * FRAMES_PER_BUFFER) =
           (if ms e = 0 then int FRAMES_PER_BUFFER else spec_rendered_samples (ms e)) \<and>
         real_of_int (ms e) / 1000 * real SAMPLE_RATE
           \<le> real (event_buffers (ms e) * FRAMES_PER_BUFFER)"
proof -
  have d: "0 \<le> ms e" using assms(4) by (simp add: note_ok_def)
  from run_event [OF assms]
  have 1: "occupied_buffers fuel FRAMES_PER_BUFFER v = Some (event_buffers (ms e))"
    and 2: "\<exists>v'. callbacks (event_buffers (ms e)) FRAMES_PER_BUFFER v = Some v' \<and> idle v' \<and>
                rbuf v' = q"
    and 3: "\<forall>j. 0 < j \<and> j < event_buffers (ms e) \<longrightarrow>
            (\<exists>w. callbacks j FRAMES_PER_BUFFER v = Some w \<and> \<not> idle w \<and> curr_note w = e)"
    by blast+
  show ?thesis
    using 1 2 3 event_buffers_spec [OF d] event_buffers_covers [OF d] by blast
qed

theorem event_occupies_whole_buffers_witness:
  "occupied_buffers 105 FRAMES_PER_BUFFER
     \<lparr>rbuf = [\<lparr>type = NOTE, ms = 500, hz = 440\<rparr>], table = sine (initTables zero_tables),
      vol = 0, left_phase = 0, right_phase = 0, frames_played = - 1,
      num_frames = ulong_of_int (- 1), curr_note = \<lparr>type = 0, ms = 0, hz = 0\<rparr>,
      finished = 0\<rparr> = Some 105 \<and>
   event_buffers 500 = 105 \<and> spec_rendered_samples 500 = 22050"
proof -
  have eb: "event_buffers 500 = 105"
    by (simp add: event_buffers_def event_frames_def FRAMES_PER_BUFFER_def)
  have "note_ok \<lparr>type = NOTE, ms = 500, hz = 440\<rparr>"
    by (simp add: note_ok_def)
  moreover have "voice_ok
     \<lparr>rbuf = [\<lparr>type = NOTE, ms = 500, hz = 440\<rparr>], table = sine (initTables zero_tables),
      vol = 0, left_phase = 0, right_phase = 0, frames_played = - 1,
      num_frames = ulong_of_int (- 1), curr_note = \<lparr>type = 0, ms = 0, hz = 0\<rparr>,
      finished = 0\<rparr>"
    by (simp add: voice_ok_def phase_ok_def length_initTables TABLE_SIZE_def)
  ultimately show ?thesis
    using event_occupies_whole_buffers
      [of "\<lparr>rbuf = [\<lparr>type = NOTE, ms = 500, hz = 440\<rparr>], table = sine (initTables zero_tables),
            vol = 0, left_phase = 0, right_phase = 0, frames_played = - 1,
            num_frames = ulong_of_int (- 1), curr_note = \<lparr>type = 0, ms = 0, hz = 0\<rparr>,
            finished = 0\<rparr>"
          "\<lparr>type = NOTE, ms = 500, hz = 440\<rparr>" "[]" 105]
    by (simp add: eb idle_def FRAMES_PER_BUFFER_def)
qed

section \<open>The completion signal\<close>



section \<open>The envelope\<close>

text \<open>
  Claim C4. Take any state of the voice array that the program reaches, let the
  callback run its first loop on it, and let \<open>w\<close> be a voice as the frame loop then
  sees it (the frame loop changes the phases and the volume of a voice and nothing
  else). At every frame \<open>i\<close> below \<open>FRAMES_PER_BUFFER\<close> the volume that the callback
  stores is the specification's: \<open>(i + 1) / FRAMES_PER_BUFFER\<close> when
  \<open>frames_played = 0\<close>; \<open>1 - (i + 1) / FRAMES_PER_BUFFER\<close> when \<open>frames_played \<noteq> 0\<close>
  and \<open>frames_played \<ge> num_frames - FRAMES_PER_BUFFER\<close>, read over the integers; and 1
  otherwise. The test for \<open>frames_played = 0\<close> comes first, so an event of at most one
  buffer, which is rendered with \<open>frames_played = 0\<close> only, gets the ramp up alone.
\<close>

theorem envelope_follows_spec:
  assumes "reachable vs" and "refill_all vs = Some vs1" and "v \<in> set vs1"
    and "same_event v w" and "i < FRAMES_PER_BUFFER"
  shows "vol (set_vol i FRAMES_PER_BUFFER w) =
           spec_volume i FRAMES_PER_BUFFER (frames_played w) (int (num_frames w)) \<and>
         (frames_played w = 0 \<longrightarrow>
            vol (set_vol i FRAMES_PER_BUFFER w) = (real i + 1) / real FRAMES_PER_BUFFER) \<and>
         (frames_played w \<noteq> 0 \<and>
          frames_played w \<ge> int (num_frames w) - int FRAMES_PER_BUFFER \<longrightarrow>
            vol (set_vol i FRAMES_PER_BUFFER w) = 1 - (real i + 1) / real FRAMES_PER_BUFFER) \<and>
         (frames_played w \<noteq> 0 \<and>
          frames_played w < int (num_frames w) - int FRAMES_PER_BUFFER \<longrightarrow>
            vol (set_vol i FRAMES_PER_BUFFER w) = 1)"
proof -
  from assms(3) obtain j where j: "j < length vs1" "v = vs1 ! j"
    by (auto simp: in_set_conv_nth)
  have a: "list_all2 (\<lambda>v v1. refill v = Some v1) vs vs1"
    using assms(2) by (rule refill_all_voice)
  then have l: "length vs = length vs1" and r: "refill (vs ! j) = Some v"
    using j by (simp_all add: list_all2_conv_all_nth)
  have "ms_bounded (vs ! j) \<and> counters_ok (vs ! j)"
    using reachable_inv [OF assms(1)] j l by simp
  then have "rendering v" using refill_rendering r by blast
  then have "rendering w" using same_event_rendering [OF assms(4)] by simp
  from set_vol_spec [OF this, of i] show ?thesis
    by (simp add: spec_volume_def)
qed

theorem envelope_follows_spec_witness:
  "vol (set_vol 0 FRAMES_PER_BUFFER
     \<lparr>rbuf = [], table = sine (initTables zero_tables), vol = 0, left_phase = 0,
      right_phase = 0, frames_played = 0, num_frames = 0,
      curr_note = \<lparr>type = WAITING, ms = 0, hz = 0\<rparr>, finished = 0\<rparr>) =
     spec_volume 0 FRAMES_PER_BUFFER 0 0 \<and>
   spec_volume 0 FRAMES_PER_BUFFER 0 0 = 1 / 210"
proof -
  define T where "T = initTables zero_tables"
  define w where "w = \<lparr>rbuf = [], table = sine T, vol = 0, left_phase = 0,
      right_phase = 0, frames_played = 0, num_frames = 0,
      curr_note = \<lparr>type = WAITING, ms = 0, hz = 0\<rparr>, finished = 0\<rparr>"
  have r: "refill_all (initOscillators T) = Some [w, w\<lparr>table := saw T\<rparr>]"
    by (simp add: initOscillators_eq refill_def Let_def ulong_of_double_def c_trunc_def
        note_type_defs w_def)
  have "reachable (initOscillators T)" unfolding T_def by (rule reach_init)
  from envelope_follows_spec [OF this r, of w w 0]
  have "vol (set_vol 0 FRAMES_PER_BUFFER w) = spec_volume 0 FRAMES_PER_BUFFER 0 0"
    by (simp add: same_event_def FRAMES_PER_BUFFER_def w_def)
  then show ?thesis
    by (simp add: w_def T_def spec_volume_def FRAMES_PER_BUFFER_def)
qed

section \<open>Both channels carry the same signal\<close>

text \<open>
  Claim C9. In every state of the voice array that the program reaches, the left and
  the right phase of every voice are equal, and so are the two samples of every frame
  that \<open>getNextFrame\<close> returns for it. Whenever the callback returns, its output buffer
  holds \<open>FRAMES_PER_BUFFER\<close> frames, the left and the right sample of each equal.
\<close>

theorem channels_are_equal:
  assumes "reachable vs"
  shows "(\<forall>v \<in> set vs. left_phase v = right_phase v \<and>
            (\<forall>f v'. getNextFrame v = Some (f, v') \<longrightarrow> left f = right f)) \<and>
         (\<forall>out vs'. paCallback FRAMES_PER_BUFFER vs = Some (out, vs') \<longrightarrow>
            length out = 2 * FRAMES_PER_BUFFER \<and>
            (\<forall>k < FRAMES_PER_BUFFER. out ! (2 * k) = out ! (2 * k + 1)))"
proof -
  have p: "\<forall>v \<in> set vs. left_phase v = right_phase v"
    using reachable_phases [OF assms] .
  have 1: "\<forall>v \<in> set vs. left_phase v = right_phase v \<and>
            (\<forall>f v'. getNextFrame v = Some (f, v') \<longrightarrow> left f = right f)"
    using p getNextFrame_stereo by blast
  have 2: "length out = 2 * FRAMES_PER_BUFFER \<and>
            (\<forall>k < FRAMES_PER_BUFFER. out ! (2 * k) = out ! (2 * k + 1))"
    if "paCallback FRAMES_PER_BUFFER vs = Some (out, vs')" for out vs'
    using paCallback_stereo [OF p that] paCallback_voice [OF that] by simp
  show ?thesis using 1 2 by blast
qed

theorem channels_are_equal_witness:
  "reachable (initOscillators (initTables zero_tables)) \<and>
   left_phase (initOscillators (initTables zero_tables) ! 1)
     = right_phase (initOscillators (initTables zero_tables) ! 1) \<and>
   (\<exists>out vs'. paCallback FRAMES_PER_BUFFER (initOscillators (initTables zero_tables))
                 = Some (out, vs') \<and>
               length out = 2 * FRAMES_PER_BUFFER \<and> out ! 0 = out ! 1)"
proof -
  define vs where "vs = initOscillators (initTables zero_tables)"
  have r: "reachable vs" unfolding vs_def by (rule reach_init)
  have "\<forall>v \<in> set vs. voice_callback FRAMES_PER_BUFFER v \<noteq> None"
  proof
    fix v assume "v \<in> set vs"
    then have "idle v" "rbuf v = []" by (auto simp: vs_def initOscillators_eq idle_def)
    from voice_callback_empty [OF this, of FRAMES_PER_BUFFER]
    show "voice_callback FRAMES_PER_BUFFER v \<noteq> None" by auto
  qed
  from paCallback_total [OF this] obtain out vs' where
    c: "paCallback FRAMES_PER_BUFFER vs = Some (out, vs')" by blast
  have "(0::nat) < FRAMES_PER_BUFFER" by (simp add: FRAMES_PER_BUFFER_def)
  then have "length out = 2 * FRAMES_PER_BUFFER \<and> out ! (2 * 0) = out ! (2 * 0 + 1)"
    using channels_are_equal [OF r] c by blast
  moreover have "left_phase (vs ! 1) = right_phase (vs ! 1)"
    using channels_are_equal [OF r] by (simp add: vs_def initOscillators_eq)
  ultimately show ?thesis using r c unfolding vs_def by auto
qed

section \<open>The envelope and the output buffer\<close>

text \<open>
  Claim C1 says that the contribution of a voice that plays a note is its table sample
  times the volume computed for the frame. The callback computes the volume and stores
  it in \<open>vol\<close>, and nothing reads it: \<open>getNextFrame\<close> returns the table sample as it
  is (lemma \<open>getNextFrame_ignores_vol\<close>). After \<open>initSynth\<close> and
  \<open>playOsc(1, 500, 440.0)\<close>, at the first frame of the first callback, voice 1 plays a
  note, its table sample is 1 and its volume is 1/210; voice 0 is silent. The frame
  written to the output buffer is 1/2 on both channels, the sample divided by
  \<open>NUM_OSCILLATORS\<close>, where the claim asks for the sample times 1/210.
\<close>

theorem envelope_not_applied:
  "\<exists>vs1 cf vs2 out vs'.
     refill_all (playOsc 1 500 440 (initOscillators (initTables zero_tables))) = Some vs1 \<and>
     type (curr_note (vs1 ! 1)) = NOTE \<and>
     table_at (table (vs1 ! 1)) (left_phase (vs1 ! 1)) = Some 1 \<and>
     render_voices 0 FRAMES_PER_BUFFER \<lparr>left = 0, right = 0\<rparr> vs1 = Some (cf, vs2) \<and>
     vol (vs2 ! 1) = 1 / 210 \<and> left cf = 1 / 2 \<and> right cf = 1 / 2 \<and>
     paCallback FRAMES_PER_BUFFER (playOsc 1 500 440 (initOscillators (initTables zero_tables)))
       = Some (out, vs') \<and>
     out ! 0 = 1 / 2 \<and> out ! 1 = 1 / 2"
proof -
  define T where "T = initTables zero_tables"
  define vs0 where "vs0 = playOsc 1 500 440 (initOscillators T)"
  have vs0: "vs0 =
     [\<lparr>rbuf = [], table = sine T, vol = 0, left_phase = 0, right_phase = 0,
       frames_played = - 1, num_frames = ulong_of_int (- 1),
       curr_note = \<lparr>type = 0, ms = 0, hz = 0\<rparr>, finished = 0\<rparr>,
      \<lparr>rbuf = [\<lparr>type = NOTE, ms = 500, hz = 440\<rparr>], table = saw T, vol = 0, left_phase = 0,
       right_phase = 0, frames_played = - 1, num_frames = ulong_of_int (- 1),
       curr_note = \<lparr>type = 0, ms = 0, hz = 0\<rparr>, finished = 0\<rparr>]"
    unfolding vs0_def by (rule playOsc_init_1)
  define w0 where "w0 = \<lparr>rbuf = [], table = sine T, vol = 0, left_phase = 0, right_phase = 0,
       frames_played = 0, num_frames = 0,
       curr_note = \<lparr>type = WAITING, ms = 0, hz = 0\<rparr>, finished = 0\<rparr>"
  define w1 where "w1 = \<lparr>rbuf = [], table = saw T, vol = 0, left_phase = 0,
       right_phase = 0, frames_played = 0, num_frames = 22050,
       curr_note = \<lparr>type = NOTE, ms = 500, hz = 440\<rparr>, finished = 0\<rparr>"
  have r0: "refill (vs0 ! 0) = Some w0"
    by (simp add: vs0 refill_def Let_def ulong_of_double_def c_trunc_def
        note_type_defs w0_def)
  have "refill (vs0 ! 1) =
          Some ((vs0 ! 1)\<lparr>rbuf := [], curr_note := \<lparr>type = NOTE, ms = 500, hz = 440\<rparr>,
                  frames_played := 0, num_frames := event_frames (ms \<lparr>type = NOTE, ms = 500, hz = 440\<rparr>)\<rparr>)"
    by (rule refill_event) (simp_all add: vs0 note_type_defs)
  then have r1: "refill (vs0 ! 1) = Some w1"
    by (simp add: vs0 w1_def event_frames_def)
  have r: "refill_all vs0 = Some [w0, w1]"
    using r0 r1 by (simp add: vs0)
  have t1: "table_at (table w1) (left_phase w1) = Some 1"
    "table_at (table w1) (right_phase w1) = Some 1"
    by (simp_all add: w1_def T_def saw_at_0)
  have g0: "getNextFrame (set_vol 0 FRAMES_PER_BUFFER w0)
              = Some (\<lparr>left = 0, right = 0\<rparr>, w0\<lparr>vol := 1 / 210\<rparr>)"
    by (simp add: getNextFrame_def set_vol_def w0_def FRAMES_PER_BUFFER_def)
  have sv1: "set_vol 0 FRAMES_PER_BUFFER w1 = w1\<lparr>vol := 1 / 210\<rparr>"
    by (simp add: set_vol_def w1_def FRAMES_PER_BUFFER_def)
  have g1: "getNextFrame (set_vol 0 FRAMES_PER_BUFFER w1)
              = Some (\<lparr>left = 1, right = 1\<rparr>,
                      w1\<lparr>vol := 1 / 210, left_phase := advance_phase 0 440,
                         right_phase := advance_phase 0 440\<rparr>)"
    unfolding sv1 using t1 by (simp add: getNextFrame_def w1_def note_type_defs)
  define vs2 where "vs2 = [w0\<lparr>vol := 1 / 210\<rparr>,
                      w1\<lparr>vol := 1 / 210, left_phase := advance_phase 0 440,
                         right_phase := advance_phase 0 440\<rparr>]"
  have rv: "render_voices 0 FRAMES_PER_BUFFER \<lparr>left = 0, right = 0\<rparr> [w0, w1]
              = Some (\<lparr>left = 1 / 2, right = 1 / 2\<rparr>, vs2)"
    by (simp add: g0 g1 NUM_OSCILLATORS_def vs2_def)
  have "\<forall>v \<in> set vs0. voice_callback FRAMES_PER_BUFFER v \<noteq> None"
  proof -
    have "idle (vs0 ! 0)" "rbuf (vs0 ! 0) = []"
      by (simp_all add: vs0 idle_def)
    from voice_callback_empty [OF this, of FRAMES_PER_BUFFER]
    have a: "voice_callback FRAMES_PER_BUFFER (vs0 ! 0) \<noteq> None" by auto
    have "idle (vs0 ! 1)" "voice_ok (vs0 ! 1)"
      "rbuf (vs0 ! 1) = \<lparr>type = NOTE, ms = 500, hz = 440\<rparr> # []"
      "note_ok \<lparr>type = NOTE, ms = 500, hz = 440\<rparr>"
      by (simp_all add: vs0 idle_def voice_ok_def phase_ok_def T_def
          length_initTables TABLE_SIZE_def note_ok_def)
    from voice_callback_start [OF this]
    have b: "voice_callback FRAMES_PER_BUFFER (vs0 ! 1) \<noteq> None" by auto
    show ?thesis using a b by (simp add: vs0)
  qed
  from paCallback_total [OF this] obtain out vs' where
    c: "paCallback FRAMES_PER_BUFFER vs0 = Some (out, vs')" by blast
  then obtain buf vs3 where f: "render_frames 0 FRAMES_PER_BUFFER [w0, w1] = Some (buf, vs3)"
    and o: "out = interleave buf"
    by (auto simp: paCallback_def r split: option.splits)
  have "(0::nat) < FRAMES_PER_BUFFER" by (simp add: FRAMES_PER_BUFFER_def)
  then obtain buf1 where "buf = \<lparr>left = 1 / 2, right = 1 / 2\<rparr> # buf1"
    using f unfolding render_frames.simps [of 0 FRAMES_PER_BUFFER "[w0, w1]"] rv
    by (auto split: option.splits)
  then have o01: "out ! 0 = 1 / 2" "out ! 1 = 1 / 2" by (simp_all add: o interleave_def)
  have k1: "type (curr_note ([w0, w1] ! 1)) = NOTE" by (simp add: w1_def)
  have k2: "table_at (table ([w0, w1] ! 1)) (left_phase ([w0, w1] ! 1)) = Some 1"
    using t1 by simp
  have k3: "vol (vs2 ! 1) = 1 / 210" by (simp add: vs2_def)
  have k4: "left \<lparr>left = 1 / 2, right = 1 / 2\<rparr> = 1 / 2"
    "right \<lparr>left = 1 / 2, right = 1 / 2\<rparr> = 1 / 2" by simp_all
  show ?thesis
    unfolding T_def [symmetric] vs0_def [symmetric]
    apply (rule exI [of _ "[w0, w1]"], rule exI [of _ "\<lparr>left = 1 / 2, right = 1 / 2\<rparr>"])
    apply (rule exI [of _ vs2], rule exI [of _ out], rule exI [of _ vs'])
    apply (intro conjI)
    apply (fact r k1 k2 rv k3 k4 c o01)+
    done
qed

end
